theory Spec2Isabelle
  imports Main "HOL-Library.Word"
begin

section \<open>Data model\<close>

text \<open>
  The file \<^verbatim>\<open>irohad/ordering/impl/batches_cache.cpp\<close> works on shared pointers to
  transaction batches. Hashes, signed data and public keys are opaque byte blobs of which
  the code only uses equality; they are natural numbers here. Timestamps and the cached
  transaction counters are \<^verbatim>\<open>uint64_t\<close>, so they are 64-bit words and wrap around.
\<close>

type_synonym HashType = nat
type_synonym TimestampType = "64 word"

datatype Signature = Signature (signedData: nat) (publicKey: nat)

record Transaction =
  hash :: HashType
  createdTime :: TimestampType
  signatures :: "Signature list"

text \<open>
  A batch exposes its reduced hash and its ordered transactions. The only in-place
  mutation the file performs on a batch is \<^verbatim>\<open>addSignature\<close> on the transactions of the
  batch resident in the pending store; the model keeps batches as values and writes the
  merged batch back into the pending entry.
\<close>

record TransactionBatch =
  reducedHash :: HashType
  transactions :: "Transaction list"

section \<open>BatchesContext: a set of batches with a cached transaction count\<close>

text \<open>
  Modelled from the spec: the comparator of \<^verbatim>\<open>BatchesSetType\<close> is declared in a header that
  is not part of the sources. Following the data model, where the reduced hash is the
  identity of a batch ignoring signatures, two batches are the same member when their
  reduced hashes are equal. The set is a list without two members of the same reduced
  hash.
\<close>

record BatchesContext =
  batches :: "TransactionBatch list"
  tx_count :: "64 word"

definition BatchesContext_init :: BatchesContext where
  "BatchesContext_init = \<lparr>batches = [], tx_count = 0\<rparr>"

definition txs_size :: "TransactionBatch \<Rightarrow> 64 word" where
  "txs_size b = of_nat (length (transactions b))"

definition BatchesContext_count :: "TransactionBatch list \<Rightarrow> 64 word" where
  "BatchesContext_count src = fold (\<lambda>b sum. sum + txs_size b) src 0"

definition getTxsCount :: "BatchesContext \<Rightarrow> 64 word" where
  "getTxsCount ctx = tx_count ctx"

text \<open>
  Modelled from the spec: \<^verbatim>\<open>find\<close>, \<^verbatim>\<open>insert\<close> and \<^verbatim>\<open>erase\<close> of \<^verbatim>\<open>BatchesSetType\<close> compare
  batches with the comparator of the missing header, here equality of reduced hashes.
\<close>

definition contains_batch :: "TransactionBatch list \<Rightarrow> TransactionBatch \<Rightarrow> bool" where
  "contains_batch bs b = (reducedHash b \<in> reducedHash ` set bs)"

definition erase_batch :: "TransactionBatch \<Rightarrow> TransactionBatch list \<Rightarrow> TransactionBatch list" where
  "erase_batch b bs = filter (\<lambda>m. reducedHash m \<noteq> reducedHash b) bs"

definition BatchesContext_insert ::
  "BatchesContext \<Rightarrow> TransactionBatch \<Rightarrow> bool \<times> BatchesContext" where
  "BatchesContext_insert ctx b =
     (let inserted = \<not> contains_batch (batches ctx) b in
      if inserted
      then (inserted, \<lparr>batches = batches ctx @ [b], tx_count = tx_count ctx + txs_size b\<rparr>)
      else (inserted, ctx))"

definition BatchesContext_removeBatch ::
  "BatchesContext \<Rightarrow> TransactionBatch \<Rightarrow> bool \<times> BatchesContext" where
  "BatchesContext_removeBatch ctx b =
     (let was = length (batches ctx);
          bs = erase_batch b (batches ctx) in
      if length bs \<noteq> was
      then (True, \<lparr>batches = bs, tx_count = tx_count ctx - txs_size b\<rparr>)
      else (False, \<lparr>batches = bs, tx_count = tx_count ctx\<rparr>))"

text \<open>
  \<^verbatim>\<open>merge\<close> walks over \<^verbatim>\<open>from.batches_\<close>: a batch that can be inserted into the target is
  erased from \<^verbatim>\<open>from\<close> and both counters are adjusted, any other batch stays in \<^verbatim>\<open>from\<close>.
  The loop state is the target, the batches already passed and left in \<^verbatim>\<open>from\<close>, and the
  counter of \<^verbatim>\<open>from\<close>.
\<close>

fun merge_loop ::
  "TransactionBatch list \<Rightarrow> BatchesContext \<Rightarrow> TransactionBatch list \<Rightarrow> 64 word
     \<Rightarrow> BatchesContext \<times> BatchesContext" where
  "merge_loop [] self kept from_count = (self, \<lparr>batches = kept, tx_count = from_count\<rparr>)"
| "merge_loop (b # rest) self kept from_count =
     (if \<not> contains_batch (batches self) b
      then merge_loop rest
             \<lparr>batches = batches self @ [b], tx_count = tx_count self + txs_size b\<rparr>
             kept (from_count - txs_size b)
      else merge_loop rest self (kept @ [b]) from_count)"

definition BatchesContext_merge ::
  "BatchesContext \<Rightarrow> BatchesContext \<Rightarrow> BatchesContext \<times> BatchesContext" where
  "BatchesContext_merge self from = merge_loop (batches from) self [] (tx_count from)"

text \<open>
  Modelled from the spec: the member template \<^verbatim>\<open>BatchesContext::remove(predicate)\<close> lives in
  the missing header. The spec's \<^verbatim>\<open>retain_not(predicate)\<close> removes every batch on which the
  predicate holds and decrements the counter by the transactions of each removed batch.
\<close>

definition BatchesContext_remove ::
  "BatchesContext \<Rightarrow> (TransactionBatch \<Rightarrow> bool) \<Rightarrow> BatchesContext" where
  "BatchesContext_remove ctx pred =
     \<lparr>batches = filter (\<lambda>b. \<not> pred b) (batches ctx),
      tx_count = tx_count ctx - BatchesContext_count (filter pred (batches ctx))\<rparr>"

text \<open>
  The representation invariant of a \<^verbatim>\<open>BatchesContext\<close>: the list is a set under the
  comparator, and the assertion \<^verbatim>\<open>count(batches_) == tx_count_\<close> that closes every mutator.
\<close>

definition is_set :: "TransactionBatch list \<Rightarrow> bool" where
  "is_set bs = distinct (map reducedHash bs)"

definition count_ok :: "BatchesContext \<Rightarrow> bool" where
  "count_ok ctx = (BatchesContext_count (batches ctx) = tx_count ctx)"

text \<open>
  Batches of the same reduced hash are the same logical batch in different signature
  states, so they have the same number of transactions; \<open>same_shape\<close> says so for one
  batch against the members of a set.
\<close>

definition same_shape :: "TransactionBatch list \<Rightarrow> TransactionBatch \<Rightarrow> bool" where
  "same_shape bs b =
     list_all (\<lambda>m. reducedHash m \<noteq> reducedHash b
                    \<or> length (transactions m) = length (transactions b)) bs"

section \<open>Signature merging\<close>

text \<open>
  Modelled from the spec: \<^verbatim>\<open>Transaction::addSignature\<close> is a primitive of the environment,
  \<^verbatim>\<open>add_signature(signed_hex, pubkey_hex) -> bool\<close>, returning whether the signature was
  new. A signature is its pair of signed data and public key; a new one is appended to the
  transaction's ordered signatures.
\<close>

definition addSignature :: "Transaction \<Rightarrow> nat \<Rightarrow> nat \<Rightarrow> bool \<times> Transaction" where
  "addSignature tx signed_data public_key =
     (if Signature signed_data public_key \<in> set (signatures tx) then (False, tx)
      else (True, tx\<lparr>signatures := signatures tx @ [Signature signed_data public_key]\<rparr>))"

text \<open>
  The inner loop of \<^verbatim>\<open>mergeSignaturesInBatch\<close> runs over the signatures of one donor
  transaction; the loop state is the target transaction, the flag
  \<^verbatim>\<open>inserted_new_signatures\<close> and the \<^verbatim>\<open>diff\<close> collection. \<^verbatim>\<open>diff\<close> receives the target
  transaction at each new signature (as a value: the transaction right after the addition).
\<close>

fun merge_signatures ::
  "Signature list \<Rightarrow> Transaction \<Rightarrow> bool \<Rightarrow> Transaction list
     \<Rightarrow> Transaction \<times> bool \<times> Transaction list" where
  "merge_signatures [] target_tx inserted_new_signatures diff =
     (target_tx, inserted_new_signatures, diff)"
| "merge_signatures (signature # rest) target_tx inserted_new_signatures diff =
     (case addSignature target_tx (signedData signature) (publicKey signature) of
        (True, tx') \<Rightarrow> merge_signatures rest tx' True (diff @ [tx'])
      | (False, tx') \<Rightarrow> merge_signatures rest tx' inserted_new_signatures diff)"

text \<open>
  The outer loop advances both iterators together and stops when either list ends; the
  target transactions beyond that point are left as they are.
\<close>

fun merge_transactions ::
  "Transaction list \<Rightarrow> Transaction list \<Rightarrow> bool \<Rightarrow> Transaction list
     \<Rightarrow> Transaction list \<times> bool \<times> Transaction list" where
  "merge_transactions (target_tx # ts) (donor_tx # ds) inserted_new_signatures diff =
     (case merge_signatures (signatures donor_tx) target_tx inserted_new_signatures diff of
        (tx', ins', diff') \<Rightarrow>
          (case merge_transactions ts ds ins' diff' of
             (ts', ins'', diff'') \<Rightarrow> (tx' # ts', ins'', diff'')))"
| "merge_transactions ts ds inserted_new_signatures diff = (ts, inserted_new_signatures, diff)"

definition mergeSignaturesInBatch ::
  "TransactionBatch \<Rightarrow> TransactionBatch \<Rightarrow> Transaction list
     \<Rightarrow> TransactionBatch \<times> bool \<times> Transaction list" where
  "mergeSignaturesInBatch target donor diff =
     (case merge_transactions (transactions target) (transactions donor) False diff of
        (ts', inserted_new_signatures, diff') \<Rightarrow>
          (target\<lparr>transactions := ts'\<rparr>, inserted_new_signatures, diff'))"

section \<open>The pending store\<close>

text \<open>
  \<^verbatim>\<open>oldestTimestamp\<close> starts from \<^verbatim>\<open>0ull\<close> and takes \<^verbatim>\<open>std::min\<close> with the creation time
  of every transaction, on unsigned 64-bit values.
\<close>

definition oldestTimestamp :: "TransactionBatch \<Rightarrow> TimestampType" where
  "oldestTimestamp b = fold (\<lambda>tx ts. min ts (createdTime tx)) (transactions b) 0"

record BatchInfo =
  batch :: TransactionBatch
  timestamp :: TimestampType

text \<open>
  \<^verbatim>\<open>mst_pending_\<close> maps a reduced hash to its entry and \<^verbatim>\<open>mst_expirations_\<close> maps a
  timestamp to a batch; both are association lists whose keys are kept distinct by
  \<^verbatim>\<open>emplace\<close>. The expiration index keeps the batch handed to \<^verbatim>\<open>emplace\<close>; the code only
  ever reads its keys.
\<close>

record MSTState =
  mst_pending :: "(HashType \<times> BatchInfo) list"
  mst_expirations :: "(TimestampType \<times> TransactionBatch) list"
  mst_diff :: "Transaction list"

definition MSTState_init :: MSTState where
  "MSTState_init = \<lparr>mst_pending = [], mst_expirations = [], mst_diff = []\<rparr>"

definition erase_key :: "'k \<Rightarrow> ('k \<times> 'v) list \<Rightarrow> ('k \<times> 'v) list" where
  "erase_key k al = filter (\<lambda>p. fst p \<noteq> k) al"

text \<open>
  The probe \<^verbatim>\<open>while (!mst_expirations_.emplace(ts, batch).second) ++ts;\<close> increments a
  64-bit value until \<^verbatim>\<open>emplace\<close> succeeds, that is until the key is free. It does not
  return when every timestamp is taken.
\<close>

partial_function (option) probe_timestamp ::
  "(TimestampType \<times> TransactionBatch) list \<Rightarrow> TimestampType \<Rightarrow> TimestampType option" where
  "probe_timestamp exps ts =
     (if ts \<in> fst ` set exps then probe_timestamp exps (ts + 1) else Some ts)"

declare probe_timestamp.simps [code]

definition set_resident ::
  "HashType \<Rightarrow> TransactionBatch \<Rightarrow> (HashType \<times> BatchInfo) list \<Rightarrow> (HashType \<times> BatchInfo) list" where
  "set_resident rh target al =
     map (\<lambda>p. if fst p = rh then (fst p, (snd p)\<lparr>batch := target\<rparr>) else p) al"

section \<open>Events and locks\<close>

text \<open>
  \<^verbatim>\<open>getSubscription()->notify(type, argument)\<close> is recorded in the order of the calls. The
  argument expression is \<^verbatim>\<open>batch\<close> or \<^verbatim>\<open>it_batch->second.batch\<close>; the latter is written
  at three places:
  \<^item> in \<^verbatim>\<open>insertMSTCache\<close> when the merged batch stays pending, where it denotes the
    resident batch (\<open>Arg\<close>);
  \<^item> in \<^verbatim>\<open>insertMSTCache\<close> after \<^verbatim>\<open>mst_pending_.erase(it_batch)\<close>, where the entry it
    names has just been erased (\<open>ErasedEntry\<close>, with the batch the entry held);
  \<^item> in \<^verbatim>\<open>BatchesCache::insert\<close>, where no \<^verbatim>\<open>it_batch\<close> is declared (\<open>Undeclared\<close>).
\<close>

datatype EventTypes = kOnMstStateUpdate | kOnMstPreparedBatches

datatype NotifyArg = Arg TransactionBatch | ErasedEntry TransactionBatch | Undeclared

text \<open>
  Modelled from the spec: \<^verbatim>\<open>mst_state_.exclusiveAccess\<close> comes from a missing header; the
  spec describes it as the exclusive lock that guards the pending store. The mutex
  \<^verbatim>\<open>batches_cache_cs_\<close> guards both batch sets. Acquisitions and releases are recorded in
  program order; the state transformers below give the data effect of the sequential code,
  and an acquisition of \<^verbatim>\<open>batches_cache_cs_\<close> on a trace that holds it does not come back.
\<close>

datatype Lock = batches_cache_cs | mst_state_access

datatype LockOp = Acquire Lock | Release Lock

record BatchesCache =
  mst_state :: MSTState
  batches_cache :: BatchesContext
  used_batches_cache :: BatchesContext
  notified :: "(EventTypes \<times> NotifyArg) list"
  locking :: "LockOp list"

definition BatchesCache_init :: BatchesCache where
  "BatchesCache_init =
     \<lparr>mst_state = MSTState_init, batches_cache = BatchesContext_init,
      used_batches_cache = BatchesContext_init, notified = [], locking = []\<rparr>"

definition notify :: "EventTypes \<Rightarrow> NotifyArg \<Rightarrow> BatchesCache \<Rightarrow> BatchesCache" where
  "notify ev arg c = c\<lparr>notified := notified c @ [(ev, arg)]\<rparr>"

definition lock_op :: "LockOp \<Rightarrow> BatchesCache \<Rightarrow> BatchesCache" where
  "lock_op l c = c\<lparr>locking := locking c @ [l]\<rparr>"

text \<open>
  The locks that a trace has acquired and not released.
\<close>

definition held_locks :: "LockOp list \<Rightarrow> Lock list" where
  "held_locks ops = fold (\<lambda>op h. case op of Acquire l \<Rightarrow> l # h | Release l \<Rightarrow> remove1 l h) ops []"

text \<open>
  The lock discipline of the spec, read on a trace of one thread: the pending-store lock is
  never acquired while the cache lock is held. \<open>held\<close> lists the locks held so far.
\<close>

fun lock_order_ok :: "Lock list \<Rightarrow> LockOp list \<Rightarrow> bool" where
  "lock_order_ok held [] = True"
| "lock_order_ok held (Acquire l # ops) =
     (if l = mst_state_access \<and> batches_cache_cs \<in> set held then False
      else lock_order_ok (l # held) ops)"
| "lock_order_ok held (Release l # ops) = lock_order_ok (remove1 l held) ops"

section \<open>BatchesCache\<close>

text \<open>
  \<^verbatim>\<open>hasAllSignatures\<close> is declared outside the sources and is a parameter of the two
  functions that call it. Assertions are compiled out of a release build and are not part
  of the transformers. Trailing underscores of member names are dropped.

  \<^verbatim>\<open>batches_cache_cs_\<close> is taken with \<^verbatim>\<open>std::unique_lock\<close> and with \<^verbatim>\<open>std::shared_lock\<close>: it is
  a shared mutex and not a recursive one. The promotion in \<^verbatim>\<open>insertMSTCache\<close> locks it for
  the insertion into the available set. When the calling thread owns the mutex already,
  which it does under \<^verbatim>\<open>BatchesCache::insert\<close>, the call does not come back from that
  acquisition (the library raises \<^verbatim>\<open>std::system_error\<close> or the thread blocks for ever),
  and the result is \<open>None\<close>, as it is when the timestamp probe does not end.
\<close>

definition insertMSTCache ::
  "(TransactionBatch \<Rightarrow> bool) \<Rightarrow> BatchesCache \<Rightarrow> TransactionBatch \<Rightarrow> BatchesCache option" where
  "insertMSTCache hasAllSignatures c b =
     (let c0 = lock_op (Acquire mst_state_access) c;
          st = mst_state c0
      in case map_of (mst_pending st) (reducedHash b) of
        None \<Rightarrow>
          (case probe_timestamp (mst_expirations st) (oldestTimestamp b) of
             None \<Rightarrow> None
           | Some ts \<Rightarrow>
               Some (lock_op (Release mst_state_access)
                 (notify kOnMstStateUpdate (Arg b)
                   (c0\<lparr>mst_state := st
                      \<lparr>mst_pending := mst_pending st @ [(reducedHash b, \<lparr>batch = b, timestamp = ts\<rparr>)],
                       mst_expirations := mst_expirations st @ [(ts, b)]\<rparr>\<rparr>))))
      | Some info \<Rightarrow>
          (case mergeSignaturesInBatch (batch info) b [] of
             (target, inserted_new_signatures, diff) \<Rightarrow>
               (let st1 = st\<lparr>mst_pending := set_resident (reducedHash b) target (mst_pending st),
                              mst_diff := diff\<rparr>;
                    c1 = c0\<lparr>mst_state := st1\<rparr>
                in if inserted_new_signatures
                   then if hasAllSignatures target
                        then if batches_cache_cs \<in> set (held_locks (locking c1)) then None
                        else
                          (let c2 = lock_op (Acquire batches_cache_cs) c1;
                               c3 = c2\<lparr>batches_cache :=
                                          snd (BatchesContext_insert (batches_cache c2) target)\<rparr>;
                               c4 = lock_op (Release batches_cache_cs) c3;
                               c5 = c4\<lparr>mst_state := st1
                                      \<lparr>mst_expirations :=
                                         erase_key (timestamp info) (mst_expirations st1),
                                       mst_pending :=
                                         erase_key (reducedHash b) (mst_pending st1)\<rparr>\<rparr>
                           in Some (lock_op (Release mst_state_access)
                                (notify kOnMstPreparedBatches (ErasedEntry target) c5)))
                        else Some (lock_op (Release mst_state_access)
                               (notify kOnMstStateUpdate (Arg target) c1))
                   else Some (lock_op (Release mst_state_access) c1))))"

definition removeMSTCache :: "BatchesCache \<Rightarrow> TransactionBatch \<Rightarrow> BatchesCache" where
  "removeMSTCache c b =
     (let c0 = lock_op (Acquire mst_state_access) c;
          st = mst_state c0
      in case map_of (mst_pending st) (reducedHash b) of
        Some info \<Rightarrow>
          lock_op (Release mst_state_access)
            (c0\<lparr>mst_state := st
               \<lparr>mst_expirations := erase_key (timestamp info) (mst_expirations st),
                mst_pending := erase_key (reducedHash b) (mst_pending st)\<rparr>\<rparr>)
      | None \<Rightarrow> lock_op (Release mst_state_access) c0)"

text \<open>
  The overload of \<^verbatim>\<open>removeMSTCache\<close> on a set of hashes visits every entry of
  \<^verbatim>\<open>mst_pending_\<close> once and erases the entries of the batches that hold a transaction
  whose hash is in the set.
\<close>

definition need_remove :: "HashType set \<Rightarrow> TransactionBatch \<Rightarrow> bool" where
  "need_remove hashes b = list_ex (\<lambda>tx. hash tx \<in> hashes) (transactions b)"

fun removeMSTCache_loop ::
  "HashType set \<Rightarrow> (HashType \<times> BatchInfo) list \<Rightarrow> MSTState \<Rightarrow> MSTState" where
  "removeMSTCache_loop hashes [] st = st"
| "removeMSTCache_loop hashes (it # rest) st =
     (if need_remove hashes (batch (snd it))
      then removeMSTCache_loop hashes rest
             (st\<lparr>mst_expirations := erase_key (timestamp (snd it)) (mst_expirations st),
                 mst_pending := erase_key (fst it) (mst_pending st)\<rparr>)
      else removeMSTCache_loop hashes rest st)"

definition removeMSTCache_hashes :: "BatchesCache \<Rightarrow> HashType set \<Rightarrow> BatchesCache" where
  "removeMSTCache_hashes c hashes =
     (let c0 = lock_op (Acquire mst_state_access) c;
          st = mst_state c0
      in lock_op (Release mst_state_access)
           (c0\<lparr>mst_state := removeMSTCache_loop hashes (mst_pending st) st\<rparr>))"

definition BatchesCache_insert ::
  "(TransactionBatch \<Rightarrow> bool) \<Rightarrow> BatchesCache \<Rightarrow> TransactionBatch
     \<Rightarrow> (64 word \<times> BatchesCache) option" where
  "BatchesCache_insert hasAllSignatures c b =
     (let c0 = lock_op (Acquire batches_cache_cs) c;
          r = (if hasAllSignatures b
               then
                 (let c1 = (if \<not> contains_batch (batches (used_batches_cache c0)) b
                            then c0\<lparr>batches_cache :=
                                      snd (BatchesContext_insert (batches_cache c0) b)\<rparr>
                            else c0);
                      c2 = removeMSTCache c1 b
                  in Some (notify kOnMstPreparedBatches Undeclared c2))
               else insertMSTCache hasAllSignatures c0 b)
      in case r of
        None \<Rightarrow> None
      | Some c' \<Rightarrow>
          Some (getTxsCount (batches_cache c'), lock_op (Release batches_cache_cs) c'))"

definition BatchesCache_remove :: "BatchesCache \<Rightarrow> HashType set \<Rightarrow> BatchesCache" where
  "BatchesCache_remove c hashes =
     (let c0 = removeMSTCache_hashes c hashes;
          c1 = lock_op (Acquire batches_cache_cs) c0
      in case BatchesContext_merge (batches_cache c1) (used_batches_cache c1) of
        (available, used) \<Rightarrow>
          lock_op (Release batches_cache_cs)
            (c1\<lparr>batches_cache := BatchesContext_remove available (need_remove hashes),
                used_batches_cache := used\<rparr>))"

definition isEmpty :: "BatchesCache \<Rightarrow> bool" where
  "isEmpty c = (batches (batches_cache c) = [])"

definition txsCount :: "BatchesCache \<Rightarrow> 64 word" where
  "txsCount c = getTxsCount (batches_cache c) + getTxsCount (used_batches_cache c)"

definition availableTxsCount :: "BatchesCache \<Rightarrow> 64 word" where
  "availableTxsCount c = getTxsCount (batches_cache c)"

fun processReceivedProposal_loop ::
  "TransactionBatch list \<Rightarrow> BatchesContext \<times> BatchesContext
     \<Rightarrow> BatchesContext \<times> BatchesContext" where
  "processReceivedProposal_loop [] s = s"
| "processReceivedProposal_loop (b # rest) (available, used) =
     processReceivedProposal_loop rest
       (snd (BatchesContext_removeBatch available b), snd (BatchesContext_insert used b))"

definition processReceivedProposal :: "BatchesCache \<Rightarrow> TransactionBatch list \<Rightarrow> BatchesCache" where
  "processReceivedProposal c bs =
     (let c0 = lock_op (Acquire batches_cache_cs) c
      in case processReceivedProposal_loop bs (batches_cache c0, used_batches_cache c0) of
        (available, used) \<Rightarrow>
          lock_op (Release batches_cache_cs)
            (c0\<lparr>batches_cache := available, used_batches_cache := used\<rparr>))"

section \<open>Reachable states and the invariant of the pending store\<close>

text \<open>
  The states of the cache that its three mutating operations produce from the empty cache.
\<close>

inductive reachable :: "(TransactionBatch \<Rightarrow> bool) \<Rightarrow> BatchesCache \<Rightarrow> bool"
  for hasAllSignatures :: "TransactionBatch \<Rightarrow> bool" where
  reachable_init: "reachable hasAllSignatures BatchesCache_init"
| reachable_insert:
    "reachable hasAllSignatures c \<Longrightarrow> BatchesCache_insert hasAllSignatures c b = Some (n, c')
     \<Longrightarrow> reachable hasAllSignatures c'"
| reachable_remove:
    "reachable hasAllSignatures c \<Longrightarrow> reachable hasAllSignatures (BatchesCache_remove c hashes)"
| reachable_proposal:
    "reachable hasAllSignatures c \<Longrightarrow> reachable hasAllSignatures (processReceivedProposal c bs)"

text \<open>
  Each entry of \<^verbatim>\<open>mst_pending_\<close> links its reduced hash to its timestamp, and each entry of
  \<^verbatim>\<open>mst_expirations_\<close> links its timestamp to the reduced hash of its batch. The invariant:
  both indices hold the same links, and the keys of each index are unique.
\<close>

definition pending_links :: "MSTState \<Rightarrow> (TimestampType \<times> HashType) list" where
  "pending_links st = map (\<lambda>p. (timestamp (snd p), fst p)) (mst_pending st)"

definition expiration_links :: "MSTState \<Rightarrow> (TimestampType \<times> HashType) list" where
  "expiration_links st = map (\<lambda>q. (fst q, reducedHash (snd q))) (mst_expirations st)"

definition pending_inv :: "MSTState \<Rightarrow> bool" where
  "pending_inv st =
     (pending_links st = expiration_links st
      \<and> distinct (map fst (mst_pending st))
      \<and> distinct (map fst (mst_expirations st)))"

text \<open>
  Each entry of \<^verbatim>\<open>mst_expirations_\<close> holds the pointer that the entry of \<^verbatim>\<open>mst_pending_\<close>
  with its timestamp holds. On values, where a merge of signatures updates the batch of
  the entry of \<^verbatim>\<open>mst_pending_\<close> alone, the two batches have the same transactions up to
  their signatures: the same hashes in the same order.
\<close>

definition expirations_match :: "MSTState \<Rightarrow> bool" where
  "expirations_match st =
     (\<forall>q\<in>set (mst_expirations st). \<exists>p\<in>set (mst_pending st).
        timestamp (snd p) = fst q
        \<and> map hash (transactions (batch (snd p))) = map hash (transactions (snd q)))"

section \<open>The resident batch and its signatures\<close>

text \<open>
  The batch that stands for a reduced hash in the cache: the batch of its pending entry
  or, when there is none, the batch of that reduced hash in the available set. \<open>sigs\<close>
  lists the signature sets of a batch, one per transaction, and \<open>sigs_union\<close> joins those
  of two batches position by position.
\<close>

definition resident :: "BatchesCache \<Rightarrow> HashType \<Rightarrow> TransactionBatch option" where
  "resident c rh =
     (case map_of (mst_pending (mst_state c)) rh of
        Some info \<Rightarrow> Some (batch info)
      | None \<Rightarrow> find (\<lambda>b. reducedHash b = rh) (batches (batches_cache c)))"

definition sigs :: "TransactionBatch \<Rightarrow> Signature set list" where
  "sigs b = map (\<lambda>tx. set (signatures tx)) (transactions b)"

definition sigs_union :: "TransactionBatch \<Rightarrow> TransactionBatch \<Rightarrow> Signature set list" where
  "sigs_union p1 p2 = map (\<lambda>s. fst s \<union> snd s) (zip (sigs p1) (sigs p2))"

section \<open>Example data\<close>

text \<open>
  A concrete instance of \<^verbatim>\<open>hasAllSignatures\<close> for the examples: every transaction of the
  batch carries at least two signatures. \<open>partial_1\<close> and \<open>partial_2\<close> are two signature
  states of one logical batch, \<open>complete_12\<close> is the same batch with both signatures, and
  \<open>complete_other\<close> is a different batch.
\<close>

definition two_signatures :: "TransactionBatch \<Rightarrow> bool" where
  "two_signatures b = list_all (\<lambda>tx. 2 \<le> length (signatures tx)) (transactions b)"

definition partial_1 :: TransactionBatch where
  "partial_1 = \<lparr>reducedHash = 1, transactions =
     [\<lparr>hash = 7, createdTime = 10, signatures = [Signature 100 1]\<rparr>]\<rparr>"

definition partial_2 :: TransactionBatch where
  "partial_2 = \<lparr>reducedHash = 1, transactions =
     [\<lparr>hash = 7, createdTime = 10, signatures = [Signature 200 2]\<rparr>]\<rparr>"

definition complete_12 :: TransactionBatch where
  "complete_12 = \<lparr>reducedHash = 1, transactions =
     [\<lparr>hash = 7, createdTime = 10, signatures = [Signature 100 1, Signature 200 2]\<rparr>]\<rparr>"

definition complete_other :: TransactionBatch where
  "complete_other = \<lparr>reducedHash = 2, transactions =
     [\<lparr>hash = 8, createdTime = 42, signatures = [Signature 300 1, Signature 400 2]\<rparr>,
      \<lparr>hash = 9, createdTime = 43, signatures = [Signature 500 1, Signature 600 2]\<rparr>]\<rparr>"

text \<open>Inserting the same batch twice in succession: both results.\<close>

definition insert_twice ::
  "(TransactionBatch \<Rightarrow> bool) \<Rightarrow> BatchesCache \<Rightarrow> TransactionBatch
     \<Rightarrow> ((64 word \<times> BatchesCache) \<times> (64 word \<times> BatchesCache)) option" where
  "insert_twice hasAllSignatures c b =
     Option.bind (BatchesCache_insert hasAllSignatures c b)
       (\<lambda>r1. map_option (\<lambda>r2. (r1, r2)) (BatchesCache_insert hasAllSignatures (snd r1) b))"

definition prepared_count :: "BatchesCache \<Rightarrow> nat" where
  "prepared_count c = length (filter (\<lambda>e. fst e = kOnMstPreparedBatches) (notified c))"

text \<open>The state after two different fully signed batches were inserted into the empty cache.\<close>

definition available_two :: BatchesCache where
  "available_two =
     \<lparr>mst_state = MSTState_init,
      batches_cache = \<lparr>batches = [complete_12, complete_other], tx_count = 3\<rparr>,
      used_batches_cache = BatchesContext_init,
      notified = [(kOnMstPreparedBatches, Undeclared), (kOnMstPreparedBatches, Undeclared)],
      locking = [Acquire batches_cache_cs, Acquire mst_state_access,
                 Release mst_state_access, Release batches_cache_cs,
                 Acquire batches_cache_cs, Acquire mst_state_access,
                 Release mst_state_access, Release batches_cache_cs]\<rparr>"

text \<open>
  A second pending batch, and the states after the partial batches \<open>partial_1\<close> and
  \<open>partial_other\<close> were inserted into the empty cache one after the other.
\<close>

definition partial_other :: TransactionBatch where
  "partial_other = \<lparr>reducedHash = 3, transactions =
     [\<lparr>hash = 11, createdTime = 42, signatures = [Signature 700 1]\<rparr>]\<rparr>"

definition pending_one :: BatchesCache where
  "pending_one =
     \<lparr>mst_state =
        \<lparr>mst_pending = [(1, \<lparr>batch = partial_1, timestamp = 0\<rparr>)],
         mst_expirations = [(0, partial_1)],
         mst_diff = []\<rparr>,
      batches_cache = BatchesContext_init,
      used_batches_cache = BatchesContext_init,
      notified = [(kOnMstStateUpdate, Arg partial_1)],
      locking = [Acquire batches_cache_cs, Acquire mst_state_access,
                 Release mst_state_access, Release batches_cache_cs]\<rparr>"

definition pending_two :: BatchesCache where
  "pending_two =
     \<lparr>mst_state =
        \<lparr>mst_pending = [(1, \<lparr>batch = partial_1, timestamp = 0\<rparr>),
                        (3, \<lparr>batch = partial_other, timestamp = 1\<rparr>)],
         mst_expirations = [(0, partial_1), (1, partial_other)],
         mst_diff = []\<rparr>,
      batches_cache = BatchesContext_init,
      used_batches_cache = BatchesContext_init,
      notified = [(kOnMstStateUpdate, Arg partial_1), (kOnMstStateUpdate, Arg partial_other)],
      locking = [Acquire batches_cache_cs, Acquire mst_state_access,
                 Release mst_state_access, Release batches_cache_cs,
                 Acquire batches_cache_cs, Acquire mst_state_access,
                 Release mst_state_access, Release batches_cache_cs]\<rparr>"

text \<open>
  The state after \<open>partial_other\<close> was inserted into \<open>available_two\<close>: two batches in the
  available set and one pending batch.
\<close>

definition available_pending :: BatchesCache where
  "available_pending =
     \<lparr>mst_state =
        \<lparr>mst_pending = [(3, \<lparr>batch = partial_other, timestamp = 0\<rparr>)],
         mst_expirations = [(0, partial_other)],
         mst_diff = []\<rparr>,
      batches_cache = \<lparr>batches = [complete_12, complete_other], tx_count = 3\<rparr>,
      used_batches_cache = BatchesContext_init,
      notified = [(kOnMstPreparedBatches, Undeclared), (kOnMstPreparedBatches, Undeclared),
                  (kOnMstStateUpdate, Arg partial_other)],
      locking = [Acquire batches_cache_cs, Acquire mst_state_access,
                 Release mst_state_access, Release batches_cache_cs,
                 Acquire batches_cache_cs, Acquire mst_state_access,
                 Release mst_state_access, Release batches_cache_cs,
                 Acquire batches_cache_cs, Acquire mst_state_access,
                 Release mst_state_access, Release batches_cache_cs]\<rparr>"

lemmas example_defs =
  two_signatures_def partial_1_def partial_2_def complete_12_def complete_other_def

section \<open>Counting\<close>

lemma fold_count_acc:
  "fold (\<lambda>b sum. sum + txs_size b) bs a = a + fold (\<lambda>b sum. sum + txs_size b) bs 0"
proof (induction bs arbitrary: a)
  case Nil
  show ?case by simp
next
  case (Cons b bs)
  have "fold (\<lambda>b sum. sum + txs_size b) (b # bs) a
          = fold (\<lambda>b sum. sum + txs_size b) bs (a + txs_size b)" by simp
  also have "\<dots> = (a + txs_size b) + fold (\<lambda>b sum. sum + txs_size b) bs 0"
    by (rule Cons.IH)
  also have "\<dots> = a + fold (\<lambda>b sum. sum + txs_size b) bs (0 + txs_size b)"
    using Cons.IH [of "0 + txs_size b"] by (simp add: add.assoc)
  finally show ?case by simp
qed

lemma count_Nil [simp]: "BatchesContext_count [] = 0"
  by (simp add: BatchesContext_count_def)

lemma count_Cons [simp]:
  "BatchesContext_count (b # bs) = txs_size b + BatchesContext_count bs"
  unfolding BatchesContext_count_def
  using fold_count_acc [of bs "0 + txs_size b"] by simp

lemma count_append [simp]:
  "BatchesContext_count (xs @ ys) = BatchesContext_count xs + BatchesContext_count ys"
  by (induction xs) (simp_all add: add.assoc)

lemma count_filter_split:
  "BatchesContext_count bs
     = BatchesContext_count (filter p bs) + BatchesContext_count (filter (\<lambda>b. \<not> p b) bs)"
  by (induction bs) (simp_all add: algebra_simps)

section \<open>The cached count of a BatchesContext\<close>

lemma count_erase:
  "distinct (map reducedHash bs) \<Longrightarrow> m \<in> set bs \<Longrightarrow>
   BatchesContext_count bs
     = txs_size m + BatchesContext_count (filter (\<lambda>x. reducedHash x \<noteq> reducedHash m) bs)"
proof (induction bs)
  case Nil
  then show ?case by simp
next
  case (Cons x bs)
  show ?case
  proof (cases "x = m")
    case True
    with Cons.prems have "\<forall>y\<in>set bs. reducedHash y \<noteq> reducedHash m"
      by (auto simp: image_iff)
    then have "filter (\<lambda>y. reducedHash y \<noteq> reducedHash m) bs = bs" by simp
    with True show ?thesis by simp
  next
    case False
    with Cons.prems have m: "m \<in> set bs" and d: "distinct (map reducedHash bs)"
      and ne: "reducedHash x \<noteq> reducedHash m" by force+
    from Cons.IH [OF d m] ne show ?thesis by (simp add: algebra_simps)
  qed
qed

lemma is_set_erase: "is_set bs \<Longrightarrow> is_set (erase_batch b bs)"
  by (simp add: is_set_def erase_batch_def distinct_map_filter)

lemma erase_batch_id:
  "\<not> contains_batch bs b \<Longrightarrow> erase_batch b bs = bs"
  by (auto simp: contains_batch_def erase_batch_def filter_id_conv image_iff)

lemma erase_batch_length:
  "contains_batch bs b \<Longrightarrow> length (erase_batch b bs) < length bs"
  unfolding contains_batch_def erase_batch_def
  by (metis (mono_tags, lifting) imageE length_filter_less)

lemma removeBatch_count_ok:
  assumes "count_ok ctx" "is_set (batches ctx)" "same_shape (batches ctx) b"
  shows "count_ok (snd (BatchesContext_removeBatch ctx b))"
proof (cases "contains_batch (batches ctx) b")
  case False
  then show ?thesis using assms(1)
    by (simp add: BatchesContext_removeBatch_def Let_def erase_batch_id count_ok_def)
next
  case True
  then obtain m where m: "m \<in> set (batches ctx)" "reducedHash m = reducedHash b"
    by (auto simp: contains_batch_def)
  with assms(3) have sz: "txs_size m = txs_size b"
    by (auto simp: same_shape_def list_all_iff txs_size_def)
  have "BatchesContext_count (batches ctx)
          = txs_size m + BatchesContext_count (erase_batch b (batches ctx))"
    using count_erase [OF assms(2) [unfolded is_set_def] m(1)] m(2)
    by (simp add: erase_batch_def)
  with assms(1) sz have "BatchesContext_count (erase_batch b (batches ctx))
          = tx_count ctx - txs_size b"
    by (simp add: count_ok_def eq_diff_eq add.commute)
  with erase_batch_length [OF True] show ?thesis
    by (simp add: BatchesContext_removeBatch_def Let_def count_ok_def)
qed

lemma insert_count_ok:
  "count_ok ctx \<Longrightarrow> count_ok (snd (BatchesContext_insert ctx b))"
  by (simp add: BatchesContext_insert_def Let_def count_ok_def)

lemma insert_is_set:
  "is_set (batches ctx) \<Longrightarrow> is_set (batches (snd (BatchesContext_insert ctx b)))"
  by (auto simp: BatchesContext_insert_def Let_def is_set_def contains_batch_def)

lemma removeBatch_is_set:
  "is_set (batches ctx) \<Longrightarrow> is_set (batches (snd (BatchesContext_removeBatch ctx b)))"
  by (simp add: BatchesContext_removeBatch_def Let_def is_set_erase)

lemma merge_loop_count_ok:
  "count_ok self \<Longrightarrow> BatchesContext_count kept + BatchesContext_count rest = from_count \<Longrightarrow>
   count_ok (fst (merge_loop rest self kept from_count))
   \<and> count_ok (snd (merge_loop rest self kept from_count))"
proof (induction rest arbitrary: self kept from_count)
  case Nil
  then show ?case by (simp add: count_ok_def)
next
  case (Cons b rest)
  show ?case
  proof (cases "contains_batch (batches self) b")
    case True
    have "BatchesContext_count (kept @ [b]) + BatchesContext_count rest = from_count"
      using Cons.prems(2) by (simp add: algebra_simps)
    from Cons.IH [OF Cons.prems(1) this] True show ?thesis by simp
  next
    case False
    let ?self = "\<lparr>batches = batches self @ [b], tx_count = tx_count self + txs_size b\<rparr>"
    have 1: "count_ok ?self" using Cons.prems(1) by (simp add: count_ok_def)
    have 2: "BatchesContext_count kept + BatchesContext_count rest = from_count - txs_size b"
      using Cons.prems(2) by (simp add: algebra_simps)
    from Cons.IH [OF 1 2] False show ?thesis by simp
  qed
qed

lemma merge_loop_is_set:
  "is_set (batches self) \<Longrightarrow> is_set (kept @ rest) \<Longrightarrow>
   is_set (batches (fst (merge_loop rest self kept from_count)))
   \<and> is_set (batches (snd (merge_loop rest self kept from_count)))"
proof (induction rest arbitrary: self kept from_count)
  case Nil
  then show ?case by simp
next
  case (Cons b rest)
  show ?case
  proof (cases "contains_batch (batches self) b")
    case True
    from Cons.IH [of self "kept @ [b]"] Cons.prems True show ?thesis by simp
  next
    case False
    let ?self = "\<lparr>batches = batches self @ [b], tx_count = tx_count self + txs_size b\<rparr>"
    have 1: "is_set (batches ?self)" using Cons.prems(1) False
      by (auto simp: is_set_def contains_batch_def)
    have 2: "is_set (kept @ rest)" using Cons.prems(2) by (auto simp: is_set_def)
    from Cons.IH [OF 1 2] False show ?thesis by simp
  qed
qed

lemma merge_count_ok:
  "count_ok self \<Longrightarrow> count_ok from \<Longrightarrow>
   count_ok (fst (BatchesContext_merge self from)) \<and> count_ok (snd (BatchesContext_merge self from))"
  unfolding BatchesContext_merge_def
  by (rule merge_loop_count_ok) (simp_all add: count_ok_def)

lemma remove_count_ok:
  assumes "count_ok ctx"
  shows "count_ok (BatchesContext_remove ctx pred)"
proof -
  have "BatchesContext_count (filter (\<lambda>b. \<not> pred b) (batches ctx))
          = BatchesContext_count (batches ctx) - BatchesContext_count (filter pred (batches ctx))"
    using count_filter_split [of "batches ctx" pred] by simp
  with assms show ?thesis by (simp add: count_ok_def BatchesContext_remove_def)
qed

text \<open>
  C4. After each mutation of a \<^verbatim>\<open>BatchesContext\<close> (\<^verbatim>\<open>insert\<close>, \<^verbatim>\<open>removeBatch\<close>, \<^verbatim>\<open>merge\<close>)
  its cached \<^verbatim>\<open>tx_count_\<close> equals the sum of the numbers of transactions of its members,
  which is the assertion \<^verbatim>\<open>count(batches_) == tx_count_\<close> of the code, in 64-bit
  arithmetic. The available and the in-flight set are both values of this type. For
  \<^verbatim>\<open>removeBatch\<close>, which subtracts the size of its argument, the member erased is the same
  logical batch as the argument.
\<close>

theorem BatchesContext_tx_count_invariant:
  assumes "count_ok ctx" and "count_ok from"
  shows "count_ok (snd (BatchesContext_insert ctx b))
       \<and> (is_set (batches ctx) \<and> same_shape (batches ctx) b
            \<longrightarrow> count_ok (snd (BatchesContext_removeBatch ctx b)))
       \<and> count_ok (fst (BatchesContext_merge ctx from))
       \<and> count_ok (snd (BatchesContext_merge ctx from))"
  using assms insert_count_ok removeBatch_count_ok merge_count_ok by blast

theorem BatchesContext_tx_count_invariant_witness:
  "count_ok \<lparr>batches = [complete_12], tx_count = 1\<rparr>
   \<and> count_ok \<lparr>batches = [complete_12, complete_other], tx_count = 3\<rparr>
   \<and> is_set [complete_12] \<and> same_shape [complete_12] partial_1
   \<and> count_ok (snd (BatchesContext_insert \<lparr>batches = [complete_12], tx_count = 1\<rparr> partial_1))
   \<and> count_ok (snd (BatchesContext_removeBatch \<lparr>batches = [complete_12], tx_count = 1\<rparr> partial_1))
   \<and> snd (BatchesContext_removeBatch \<lparr>batches = [complete_12], tx_count = 1\<rparr> partial_1)
        = \<lparr>batches = [], tx_count = 0\<rparr>
   \<and> count_ok (fst (BatchesContext_merge \<lparr>batches = [complete_12], tx_count = 1\<rparr>
                       \<lparr>batches = [complete_12, complete_other], tx_count = 3\<rparr>))
   \<and> count_ok (snd (BatchesContext_merge \<lparr>batches = [complete_12], tx_count = 1\<rparr>
                       \<lparr>batches = [complete_12, complete_other], tx_count = 3\<rparr>))"
  using BatchesContext_tx_count_invariant
    [of "\<lparr>batches = [complete_12], tx_count = 1\<rparr>"
        "\<lparr>batches = [complete_12, complete_other], tx_count = 3\<rparr>" partial_1]
  by (simp add: count_ok_def is_set_def same_shape_def txs_size_def example_defs
      BatchesContext_removeBatch_def erase_batch_def)

section \<open>Timestamps of pending batches\<close>

lemma oldestTimestamp_zero: "oldestTimestamp b = 0"
proof -
  have "fold (\<lambda>tx ts. min ts (createdTime tx)) xs (0 :: 64 word) = 0" for xs
    by (induction xs) simp_all
  then show ?thesis by (simp add: oldestTimestamp_def)
qed

text \<open>
  C1. The claim wants a new pending batch to get the smallest free timestamp from the
  minimum creation time of its transactions on. \<^verbatim>\<open>oldestTimestamp\<close> starts its minimum at
  \<^verbatim>\<open>0ull\<close>, so it returns 0 for every batch (\<open>oldestTimestamp_zero\<close>) and the probe starts
  at 0. The batch \<open>partial_1\<close>, whose only transaction was created at time 10, is inserted
  into the empty cache and is stored under timestamp 0.
\<close>

theorem oldestTimestamp_assigns_zero:
  "map createdTime (transactions partial_1) = [10]
   \<and> oldestTimestamp partial_1 = 0
   \<and> map_option (\<lambda>r. map (\<lambda>p. (fst p, timestamp (snd p))) (mst_pending (mst_state (snd r))))
        (BatchesCache_insert two_signatures BatchesCache_init partial_1) = Some [(1, 0)]"
  by code_simp

section \<open>Events\<close>

text \<open>
  C2. The claim wants a \<^verbatim>\<open>Prepared\<close> event that carries the batch which became available.
  A fully signed batch inserted into the empty cache enters the available set, and the
  event is raised with the argument \<^verbatim>\<open>it_batch->second.batch\<close>, which names nothing in
  \<^verbatim>\<open>BatchesCache::insert\<close>: the inserted batch is not the argument of the event.
\<close>

theorem insert_complete_notifies_undeclared:
  "two_signatures complete_12
   \<and> map_option (\<lambda>r. (batches (batches_cache (snd r)), notified (snd r)))
       (BatchesCache_insert two_signatures BatchesCache_init complete_12)
     = Some ([complete_12], [(kOnMstPreparedBatches, Undeclared)])
   \<and> map_option (\<lambda>r. (kOnMstPreparedBatches, Arg complete_12) \<in> set (notified (snd r)))
       (BatchesCache_insert two_signatures BatchesCache_init complete_12)
     = Some False"
  by code_simp

section \<open>Inserting a fully signed batch twice\<close>

lemma map_of_erase_key [simp]: "map_of (erase_key k al) k = None"
  by (induction al) (auto simp: erase_key_def)

lemma removeMSTCache_frame [simp]:
  "batches_cache (removeMSTCache c b) = batches_cache c"
  "used_batches_cache (removeMSTCache c b) = used_batches_cache c"
  "notified (removeMSTCache c b) = notified c"
  by (simp_all add: removeMSTCache_def lock_op_def Let_def split: option.split)

lemma removeMSTCache_pending_absent:
  "map_of (mst_pending (mst_state (removeMSTCache c b))) (reducedHash b) = None"
  by (simp add: removeMSTCache_def lock_op_def Let_def split: option.split)

lemma removeMSTCache_absent:
  "map_of (mst_pending (mst_state c)) (reducedHash b) = None \<Longrightarrow>
   mst_state (removeMSTCache c b) = mst_state c"
  by (simp add: removeMSTCache_def lock_op_def Let_def)

lemma insert_again:
  "snd (BatchesContext_insert (snd (BatchesContext_insert ctx b)) b)
     = snd (BatchesContext_insert ctx b)"
  by (simp add: BatchesContext_insert_def Let_def contains_batch_def)

lemma insert_complete:
  assumes "hasAll b"
  shows "\<exists>c'. BatchesCache_insert hasAll c b = Some (tx_count (batches_cache c'), c')
     \<and> batches_cache c' = (if \<not> contains_batch (batches (used_batches_cache c)) b
                            then snd (BatchesContext_insert (batches_cache c) b)
                            else batches_cache c)
     \<and> used_batches_cache c' = used_batches_cache c
     \<and> mst_state c' = mst_state (removeMSTCache c b)
     \<and> notified c' = notified c @ [(kOnMstPreparedBatches, Undeclared)]"
  using assms
  by (simp add: BatchesCache_insert_def Let_def getTxsCount_def lock_op_def notify_def
      removeMSTCache_def split: option.split)

text \<open>
  C8, as the claim states it: the second of two successive inserts of a fully signed batch
  raises no further \<^verbatim>\<open>Prepared\<close> event. On the empty cache both calls return the count 1
  and two \<^verbatim>\<open>Prepared\<close> events have been raised.
\<close>

theorem insert_complete_twice_prepared_twice:
  "two_signatures complete_12
   \<and> map_option (\<lambda>r. (fst (fst r), fst (snd r), prepared_count (snd (snd r))))
       (insert_twice two_signatures BatchesCache_init complete_12) = Some (1, 1, 2)
   \<and> map_option (\<lambda>r. prepared_count (snd (snd r)))
       (insert_twice two_signatures BatchesCache_init complete_12) \<noteq> Some 1"
  by code_simp

text \<open>
  C8, amended. For every fully signed batch and every state of the cache, two successive
  inserts both return, with the same transaction count of the available set; the second
  insert changes none of the three stores; and each of the two calls raises one
  \<^verbatim>\<open>Prepared\<close> event.
\<close>

theorem insert_complete_twice:
  assumes "hasAllSignatures b"
  shows "\<exists>n c1 c2.
      BatchesCache_insert hasAllSignatures c b = Some (n, c1)
    \<and> BatchesCache_insert hasAllSignatures c1 b = Some (n, c2)
    \<and> n = tx_count (batches_cache c1)
    \<and> mst_state c2 = mst_state c1
    \<and> batches_cache c2 = batches_cache c1
    \<and> used_batches_cache c2 = used_batches_cache c1
    \<and> notified c1 = notified c @ [(kOnMstPreparedBatches, Undeclared)]
    \<and> notified c2 = notified c1 @ [(kOnMstPreparedBatches, Undeclared)]"
proof -
  from assms insert_complete [of hasAllSignatures b c] obtain c1 where
    1: "BatchesCache_insert hasAllSignatures c b = Some (tx_count (batches_cache c1), c1)"
    and av1: "batches_cache c1 = (if \<not> contains_batch (batches (used_batches_cache c)) b
                            then snd (BatchesContext_insert (batches_cache c) b)
                            else batches_cache c)"
    and used1: "used_batches_cache c1 = used_batches_cache c"
    and st1: "mst_state c1 = mst_state (removeMSTCache c b)"
    and ev1: "notified c1 = notified c @ [(kOnMstPreparedBatches, Undeclared)]"
    by blast
  from assms insert_complete [of hasAllSignatures b c1] obtain c2 where
    2: "BatchesCache_insert hasAllSignatures c1 b = Some (tx_count (batches_cache c2), c2)"
    and av2: "batches_cache c2 = (if \<not> contains_batch (batches (used_batches_cache c1)) b
                            then snd (BatchesContext_insert (batches_cache c1) b)
                            else batches_cache c1)"
    and used2: "used_batches_cache c2 = used_batches_cache c1"
    and st2: "mst_state c2 = mst_state (removeMSTCache c1 b)"
    and ev2: "notified c2 = notified c1 @ [(kOnMstPreparedBatches, Undeclared)]"
    by blast
  have av: "batches_cache c2 = batches_cache c1"
    using av1 av2 used1 by (simp add: insert_again)
  have "map_of (mst_pending (mst_state c1)) (reducedHash b) = None"
    using st1 removeMSTCache_pending_absent [of c b] by simp
  then have st: "mst_state c2 = mst_state c1"
    using st2 removeMSTCache_absent by simp
  from 1 2 av st used2 ev1 ev2 show ?thesis by simp
qed

theorem insert_complete_twice_witness:
  "two_signatures complete_12
   \<and> map_option (\<lambda>r. (fst (fst r), fst (snd r), notified (snd (snd r))))
       (insert_twice two_signatures BatchesCache_init complete_12)
     = Some (1, 1, [(kOnMstPreparedBatches, Undeclared), (kOnMstPreparedBatches, Undeclared)])"
proof -
  have h: "two_signatures complete_12" by code_simp
  from h insert_complete_twice [of two_signatures complete_12 BatchesCache_init]
  obtain n c1 c2 where
    "BatchesCache_insert two_signatures BatchesCache_init complete_12 = Some (n, c1)"
    "BatchesCache_insert two_signatures c1 complete_12 = Some (n, c2)"
    "notified c1 = notified BatchesCache_init @ [(kOnMstPreparedBatches, Undeclared)]"
    "notified c2 = notified c1 @ [(kOnMstPreparedBatches, Undeclared)]"
    by blast
  moreover have
    "map_option fst (BatchesCache_insert two_signatures BatchesCache_init complete_12) = Some 1"
    by code_simp
  ultimately show ?thesis using h
    by (simp add: insert_twice_def BatchesCache_init_def)
qed

section \<open>Lock order\<close>

text \<open>
  Every call of \<^verbatim>\<open>BatchesCache::insert\<close> that returns has acquired the cache lock and then,
  still holding it, the pending-store lock.
\<close>

lemma insertMSTCache_locking:
  "insertMSTCache hasAll c b = Some c' \<Longrightarrow>
   \<exists>rest. locking c' = locking c @ Acquire mst_state_access # rest"
  by (auto simp: insertMSTCache_def Let_def lock_op_def notify_def
      split: option.splits prod.splits if_splits)

lemma insert_locking:
  assumes "BatchesCache_insert hasAll c b = Some (n, c')"
  shows "\<exists>rest. locking c' = locking c @ Acquire batches_cache_cs # Acquire mst_state_access # rest"
proof (cases "hasAll b")
  case True
  with assms show ?thesis
    by (auto simp: BatchesCache_insert_def removeMSTCache_def Let_def lock_op_def notify_def
        split: option.splits if_splits)
next
  case False
  with assms obtain c1 where
    1: "insertMSTCache hasAll (lock_op (Acquire batches_cache_cs) c) b = Some c1"
    and 2: "c' = lock_op (Release batches_cache_cs) c1"
    by (auto simp: BatchesCache_insert_def Let_def split: option.splits)
  from insertMSTCache_locking [OF 1] 2 show ?thesis by (auto simp: lock_op_def)
qed

lemma insert_breaks_lock_order:
  assumes "BatchesCache_insert hasAll c b = Some (n, c')" and "locking c = []"
  shows "\<not> lock_order_ok [] (locking c')"
proof -
  from insert_locking [OF assms(1)] assms(2) obtain rest where
    "locking c' = Acquire batches_cache_cs # Acquire mst_state_access # rest" by auto
  then show ?thesis by simp
qed


text \<open>
  C9. The claim wants the pending-store lock never to be acquired while the cache lock is
  held. \<^verbatim>\<open>BatchesCache::insert\<close> acquires \<^verbatim>\<open>batches_cache_cs_\<close> on entry and then calls
  \<^verbatim>\<open>removeMSTCache\<close> or \<^verbatim>\<open>insertMSTCache\<close>, which enter \<^verbatim>\<open>mst_state_.exclusiveAccess\<close>.
  Both a fully signed and a partial batch, inserted into the empty cache, give a trace
  that breaks the order.
\<close>

theorem insert_locks_cache_before_pending:
  "map_option (\<lambda>r. locking (snd r))
       (BatchesCache_insert two_signatures BatchesCache_init complete_12)
     = Some [Acquire batches_cache_cs, Acquire mst_state_access,
             Release mst_state_access, Release batches_cache_cs]
   \<and> map_option (\<lambda>r. lock_order_ok [] (locking (snd r)))
       (BatchesCache_insert two_signatures BatchesCache_init complete_12) = Some False
   \<and> map_option (\<lambda>r. lock_order_ok [] (locking (snd r)))
       (BatchesCache_insert two_signatures BatchesCache_init partial_1) = Some False"
  by code_simp

section \<open>The timestamp probe\<close>

lemma probe_free:
  assumes "probe_timestamp exps ts = Some t"
  shows "t \<notin> fst ` set exps"
  by (rule probe_timestamp.raw_induct [where P = "\<lambda>exps ts t. t \<notin> fst ` set exps", OF _ assms])
     (auto split: if_splits)

lemma probe_returns:
  assumes "t \<notin> fst ` set exps"
  shows "\<exists>r. probe_timestamp exps ts = Some r"
  using assms
proof (induction "unat (t - ts)" arbitrary: ts rule: less_induct)
  case less
  show ?case
  proof (cases "ts \<in> fst ` set exps")
    case False
    then show ?thesis by (simp add: probe_timestamp.simps)
  next
    case True
    with less.prems have nz: "t - ts \<noteq> 0" by auto
    have e: "t - (ts + 1) = (t - ts) - 1" by simp
    have "unat (t - (ts + 1)) = unat (t - ts) - 1"
      unfolding e by (rule unat_minus_one [OF nz])
    moreover have "0 < unat (t - ts)" using nz by (simp add: unat_gt_0)
    ultimately have "unat (t - (ts + 1)) < unat (t - ts)" by simp
    from less.hyps [OF this less.prems] True show ?thesis
      by (subst probe_timestamp.simps) simp
  qed
qed

text \<open>
  The probe is linear: its result is the start plus the number of taken timestamps it
  stepped over.
\<close>

lemma probe_least:
  assumes "probe_timestamp exps ts = Some t"
  shows "\<exists>k. t = ts + of_nat k \<and> (\<forall>j<k. ts + of_nat j \<in> fst ` set exps)"
proof (rule probe_timestamp.raw_induct
    [where P = "\<lambda>exps ts t. \<exists>k. t = ts + of_nat k \<and> (\<forall>j<k. ts + of_nat j \<in> fst ` set exps)",
     OF _ assms])
  fix probe :: "(TimestampType \<times> TransactionBatch) list \<Rightarrow> TimestampType \<Rightarrow> TimestampType option"
    and exps :: "(TimestampType \<times> TransactionBatch) list" and ts y :: TimestampType
  assume IH: "\<And>e s r. probe e s = Some r \<Longrightarrow>
      \<exists>k. r = s + of_nat k \<and> (\<forall>j<k. s + of_nat j \<in> fst ` set e)"
    and eq: "(if ts \<in> fst ` set exps then probe exps (ts + 1) else Some ts) = Some y"
  show "\<exists>k. y = ts + of_nat k \<and> (\<forall>j<k. ts + of_nat j \<in> fst ` set exps)"
  proof (cases "ts \<in> fst ` set exps")
    case False
    with eq have "y = ts" by simp
    then show ?thesis by (intro exI [of _ 0]) simp
  next
    case True
    with eq have "probe exps (ts + 1) = Some y" by simp
    from IH [OF this] obtain k where k: "y = ts + 1 + of_nat k"
      "\<forall>j<k. ts + 1 + of_nat j \<in> fst ` set exps" by blast
    have "\<forall>j<Suc k. ts + of_nat j \<in> fst ` set exps"
    proof (intro allI impI)
      fix j assume "j < Suc k"
      show "ts + of_nat j \<in> fst ` set exps"
      proof (cases j)
        case 0
        with True show ?thesis by simp
      next
        case (Suc i)
        with \<open>j < Suc k\<close> k(2) have "ts + 1 + of_nat i \<in> fst ` set exps" by simp
        with Suc show ?thesis by (simp add: algebra_simps)
      qed
    qed
    with k(1) show ?thesis by (intro exI [of _ "Suc k"]) (simp add: algebra_simps)
  qed
qed

section \<open>The two indices of the pending store\<close>

lemma filter_links:
  assumes "(t, r) \<in> set ls" "distinct (map fst ls)" "distinct (map snd ls)"
  shows "filter (\<lambda>l. snd l \<noteq> r) ls = filter (\<lambda>l. fst l \<noteq> t) ls"
proof (rule filter_cong [OF refl])
  fix l assume l: "l \<in> set ls"
  from assms(2,3) have "inj_on fst (set ls)" "inj_on snd (set ls)"
    by (simp_all add: distinct_map)
  with l assms(1) show "(snd l \<noteq> r) = (fst l \<noteq> t)"
    by (metis fst_conv snd_conv inj_onD)
qed

lemma links_fst: "map fst (expiration_links st) = map fst (mst_expirations st)"
  by (simp add: expiration_links_def comp_def)

lemma links_snd: "map snd (pending_links st) = map fst (mst_pending st)"
  by (simp add: pending_links_def comp_def)

lemma pending_inv_erase:
  assumes "pending_inv st" and "(rh, e) \<in> set (mst_pending st)"
  shows "pending_inv (st\<lparr>mst_expirations := erase_key (timestamp e) (mst_expirations st),
                          mst_pending := erase_key rh (mst_pending st)\<rparr>)"
proof -
  let ?ls = "pending_links st"
  from assms(1) have eq: "?ls = expiration_links st"
    and dp: "distinct (map fst (mst_pending st))"
    and de: "distinct (map fst (mst_expirations st))"
    by (simp_all add: pending_inv_def)
  from assms(2) have m: "(timestamp e, rh) \<in> set ?ls"
    by (force simp: pending_links_def)
  have d1: "distinct (map fst ?ls)" using de eq links_fst [of st] by simp
  have d2: "distinct (map snd ?ls)" using dp links_snd [of st] by simp
  have "map (\<lambda>p. (timestamp (snd p), fst p)) (erase_key rh (mst_pending st))
          = filter (\<lambda>l. snd l \<noteq> rh) ?ls"
    by (simp add: erase_key_def pending_links_def filter_map comp_def)
  also have "\<dots> = filter (\<lambda>l. fst l \<noteq> timestamp e) ?ls"
    by (rule filter_links [OF m d1 d2])
  also have "\<dots> = map (\<lambda>q. (fst q, reducedHash (snd q)))
                     (erase_key (timestamp e) (mst_expirations st))"
    by (simp add: eq erase_key_def expiration_links_def filter_map comp_def)
  finally show ?thesis using dp de
    by (simp add: pending_inv_def pending_links_def expiration_links_def erase_key_def
        distinct_map_filter)
qed

lemma set_resident_keys [simp]:
  "map fst (set_resident rh target al) = map fst al"
  "map (\<lambda>p. (timestamp (snd p), fst p)) (set_resident rh target al)
     = map (\<lambda>p. (timestamp (snd p), fst p)) al"
  by (induction al) (simp_all add: set_resident_def)

lemma pending_inv_set_resident:
  "pending_inv st \<Longrightarrow>
   pending_inv (st\<lparr>mst_pending := set_resident rh target (mst_pending st), mst_diff := diff\<rparr>)"
  by (simp add: pending_inv_def pending_links_def expiration_links_def)

lemma set_resident_entry:
  "map_of al rh = Some info \<Longrightarrow> (rh, info\<lparr>batch := target\<rparr>) \<in> set (set_resident rh target al)"
  by (induction al) (auto simp: set_resident_def split: if_splits)

lemma pending_inv_insert:
  assumes "pending_inv st" and "map_of (mst_pending st) (reducedHash b) = None"
    and "ts \<notin> fst ` set (mst_expirations st)"
  shows "pending_inv (st\<lparr>mst_pending := mst_pending st @ [(reducedHash b, \<lparr>batch = b, timestamp = ts\<rparr>)],
                          mst_expirations := mst_expirations st @ [(ts, b)]\<rparr>)"
  using assms
  by (auto simp: pending_inv_def pending_links_def expiration_links_def map_of_eq_None_iff)

lemma insertMSTCache_pending_inv:
  assumes "pending_inv (mst_state c)" and "insertMSTCache hasAll c b = Some c'"
  shows "pending_inv (mst_state c')"
proof (cases "map_of (mst_pending (mst_state c)) (reducedHash b)")
  case None
  with assms(2) obtain ts where
    ts: "probe_timestamp (mst_expirations (mst_state c)) (oldestTimestamp b) = Some ts"
    and c': "mst_state c' = (mst_state c)
       \<lparr>mst_pending := mst_pending (mst_state c) @ [(reducedHash b, \<lparr>batch = b, timestamp = ts\<rparr>)],
        mst_expirations := mst_expirations (mst_state c) @ [(ts, b)]\<rparr>"
    by (auto simp: insertMSTCache_def Let_def lock_op_def notify_def split: option.splits)
  from pending_inv_insert [OF assms(1) None probe_free [OF ts]] c' show ?thesis by simp
next
  case (Some info)
  obtain target ins diff where
    m: "mergeSignaturesInBatch (batch info) b [] = (target, ins, diff)"
    by (cases "mergeSignaturesInBatch (batch info) b []")
  let ?st1 = "(mst_state c)\<lparr>mst_pending := set_resident (reducedHash b) target (mst_pending (mst_state c)),
                             mst_diff := diff\<rparr>"
  have i1: "pending_inv ?st1" by (rule pending_inv_set_resident [OF assms(1)])
  have e: "(reducedHash b, info\<lparr>batch := target\<rparr>) \<in> set (mst_pending ?st1)"
    using set_resident_entry [OF Some] by simp
  from pending_inv_erase [OF i1 e]
  have i2: "pending_inv (?st1\<lparr>mst_expirations := erase_key (timestamp info) (mst_expirations ?st1),
                          mst_pending := erase_key (reducedHash b) (mst_pending ?st1)\<rparr>)"
    by simp
  from assms(2) Some m have
    "mst_state c' = ?st1 \<or>
     mst_state c' = ?st1\<lparr>mst_expirations := erase_key (timestamp info) (mst_expirations ?st1),
                          mst_pending := erase_key (reducedHash b) (mst_pending ?st1)\<rparr>"
    by (auto simp: insertMSTCache_def Let_def lock_op_def notify_def split: if_splits)
  with i1 i2 show ?thesis by auto
qed

lemma removeMSTCache_pending_inv:
  assumes "pending_inv (mst_state c)"
  shows "pending_inv (mst_state (removeMSTCache c b))"
proof (cases "map_of (mst_pending (mst_state c)) (reducedHash b)")
  case None
  with assms show ?thesis by (simp add: removeMSTCache_def Let_def lock_op_def)
next
  case (Some info)
  from pending_inv_erase [OF assms map_of_SomeD [OF Some]] Some show ?thesis
    by (simp add: removeMSTCache_def Let_def lock_op_def)
qed

lemma removeMSTCache_loop_pending_inv:
  "pending_inv st \<Longrightarrow> distinct (map fst its) \<Longrightarrow> set its \<subseteq> set (mst_pending st) \<Longrightarrow>
   pending_inv (removeMSTCache_loop hashes its st)"
proof (induction its arbitrary: st)
  case Nil
  then show ?case by simp
next
  case (Cons it rest)
  show ?case
  proof (cases "need_remove hashes (batch (snd it))")
    case False
    with Cons show ?thesis by simp
  next
    case True
    let ?st = "st\<lparr>mst_expirations := erase_key (timestamp (snd it)) (mst_expirations st),
                   mst_pending := erase_key (fst it) (mst_pending st)\<rparr>"
    from Cons.prems(3) have "(fst it, snd it) \<in> set (mst_pending st)" by simp
    from pending_inv_erase [OF Cons.prems(1) this] have 1: "pending_inv ?st" .
    from Cons.prems(2) have 2: "distinct (map fst rest)" by simp
    from Cons.prems(2,3) have 3: "set rest \<subseteq> set (mst_pending ?st)"
      by (auto simp: erase_key_def image_iff)
    from Cons.IH [OF 1 2 3] True show ?thesis by simp
  qed
qed

lemma removeMSTCache_hashes_pending_inv:
  assumes "pending_inv (mst_state c)"
  shows "pending_inv (mst_state (removeMSTCache_hashes c hashes))"
proof -
  from assms have "distinct (map fst (mst_pending (mst_state c)))"
    by (simp add: pending_inv_def)
  from removeMSTCache_loop_pending_inv [OF assms this subset_refl] show ?thesis
    by (simp add: removeMSTCache_hashes_def Let_def lock_op_def)
qed

lemma BatchesCache_insert_pending_inv:
  assumes "pending_inv (mst_state c)" and "BatchesCache_insert hasAll c b = Some (n, c')"
  shows "pending_inv (mst_state c')"
proof (cases "hasAll b")
  case True
  let ?c1 = "if \<not> contains_batch (batches (used_batches_cache c)) b
             then c\<lparr>batches_cache := snd (BatchesContext_insert (batches_cache c) b)\<rparr> else c"
  have "pending_inv (mst_state ?c1)" using assms(1) by simp
  from removeMSTCache_pending_inv [OF this, of b] assms(2) True show ?thesis
    by (auto simp: BatchesCache_insert_def Let_def lock_op_def notify_def removeMSTCache_def
        split: if_splits option.splits)
next
  case False
  let ?c0 = "lock_op (Acquire batches_cache_cs) c"
  from assms(2) False obtain c1 where
    1: "insertMSTCache hasAll ?c0 b = Some c1" and 2: "mst_state c' = mst_state c1"
    by (auto simp: BatchesCache_insert_def Let_def lock_op_def split: option.splits)
  have "pending_inv (mst_state ?c0)" using assms(1) by (simp add: lock_op_def)
  from insertMSTCache_pending_inv [OF this 1] 2 show ?thesis by simp
qed

lemma BatchesCache_remove_pending_inv:
  assumes "pending_inv (mst_state c)"
  shows "pending_inv (mst_state (BatchesCache_remove c hashes))"
  using removeMSTCache_hashes_pending_inv [OF assms, of hashes]
  by (simp add: BatchesCache_remove_def Let_def lock_op_def split: prod.split)

lemma processReceivedProposal_mst_state [simp]:
  "mst_state (processReceivedProposal c bs) = mst_state c"
  by (simp add: processReceivedProposal_def Let_def lock_op_def split: prod.split)

lemma reachable_pending_inv:
  "reachable hasAll c \<Longrightarrow> pending_inv (mst_state c)"
proof (induction rule: reachable.induct)
  case reachable_init
  show ?case
    by (simp add: BatchesCache_init_def MSTState_init_def pending_inv_def pending_links_def
        expiration_links_def)
next
  case (reachable_insert c b n c')
  then show ?case using BatchesCache_insert_pending_inv by blast
next
  case (reachable_remove c hashes)
  then show ?case by (simp add: BatchesCache_remove_pending_inv)
next
  case (reachable_proposal c bs)
  then show ?case by simp
qed

lemma pending_inv_claims:
  assumes "pending_inv st"
  shows "length (mst_pending st) = length (mst_expirations st)"
    and "distinct (map fst (mst_expirations st))"
    and "\<forall>p\<in>set (mst_pending st).
           \<exists>b. (timestamp (snd p), b) \<in> set (mst_expirations st) \<and> reducedHash b = fst p"
proof -
  from assms have eq: "pending_links st = expiration_links st"
    and de: "distinct (map fst (mst_expirations st))"
    by (simp_all add: pending_inv_def)
  from eq have "length (pending_links st) = length (expiration_links st)" by simp
  then show "length (mst_pending st) = length (mst_expirations st)"
    by (simp add: pending_links_def expiration_links_def)
  show "distinct (map fst (mst_expirations st))" by (rule de)
  show "\<forall>p\<in>set (mst_pending st).
           \<exists>b. (timestamp (snd p), b) \<in> set (mst_expirations st) \<and> reducedHash b = fst p"
  proof
    fix p assume "p \<in> set (mst_pending st)"
    then have "(timestamp (snd p), fst p) \<in> set (pending_links st)"
      by (simp add: pending_links_def)
    with eq have "(timestamp (snd p), fst p) \<in> set (expiration_links st)" by simp
    then show "\<exists>b. (timestamp (snd p), b) \<in> set (mst_expirations st) \<and> reducedHash b = fst p"
      by (force simp: expiration_links_def)
  qed
qed

text \<open>
  C5. In every state that the operations of the cache reach from the empty cache, the two
  indices of the pending store have the same number of entries, the timestamps that are
  the keys of \<^verbatim>\<open>mst_expirations_\<close> are unique, and the timestamp stored in an entry of
  \<^verbatim>\<open>mst_pending_\<close> is the key under which the batch of that reduced hash stands in
  \<^verbatim>\<open>mst_expirations_\<close>.
\<close>

theorem pending_store_invariant:
  assumes "reachable hasAllSignatures c"
  shows "length (mst_pending (mst_state c)) = length (mst_expirations (mst_state c))
       \<and> distinct (map fst (mst_expirations (mst_state c)))
       \<and> (\<forall>p\<in>set (mst_pending (mst_state c)).
             \<exists>b. (timestamp (snd p), b) \<in> set (mst_expirations (mst_state c))
                  \<and> reducedHash b = fst p)"
  using pending_inv_claims [OF reachable_pending_inv [OF assms]] by blast

lemma pending_one_reached:
  "BatchesCache_insert two_signatures BatchesCache_init partial_1 = Some (0, pending_one)"
  by code_simp

lemma pending_two_reached:
  "BatchesCache_insert two_signatures pending_one partial_other = Some (0, pending_two)"
  by code_simp

theorem pending_store_invariant_witness:
  "reachable two_signatures pending_two
   \<and> length (mst_pending (mst_state pending_two)) = 2
   \<and> length (mst_expirations (mst_state pending_two)) = 2
   \<and> map fst (mst_expirations (mst_state pending_two)) = [0, 1]
   \<and> map (\<lambda>p. timestamp (snd p)) (mst_pending (mst_state pending_two)) = [0, 1]"
proof -
  have r: "reachable two_signatures pending_two"
    by (rule reachable_insert [OF reachable_insert [OF reachable_init pending_one_reached]
          pending_two_reached])
  from pending_store_invariant [OF r]
  have "length (mst_pending (mst_state pending_two)) = length (mst_expirations (mst_state pending_two))"
    by blast
  with r show ?thesis by (simp add: pending_two_def)
qed


section \<open>Stores of the cache after an insert\<close>

lemma held_under_insert:
  "batches_cache_cs \<in> set (held_locks (ops @ [Acquire batches_cache_cs, Acquire mst_state_access]))"
  by (simp add: held_locks_def)

lemma insertMSTCache_stores:
  assumes "insertMSTCache hasAll c b = Some c'"
    and "batches_cache_cs \<in> set (held_locks (locking c @ [Acquire mst_state_access]))"
  shows "batches_cache c' = batches_cache c" and "used_batches_cache c' = used_batches_cache c"
  using assms
  by (auto simp: insertMSTCache_def Let_def lock_op_def notify_def
      split: option.splits prod.splits if_splits)

lemma insert_partial_stores:
  assumes "\<not> hasAll b" and "BatchesCache_insert hasAll c b = Some (n, c')"
  shows "batches_cache c' = batches_cache c" and "used_batches_cache c' = used_batches_cache c"
proof -
  let ?c0 = "lock_op (Acquire batches_cache_cs) c"
  from assms obtain c1 where
    1: "insertMSTCache hasAll ?c0 b = Some c1"
    and 2: "c' = lock_op (Release batches_cache_cs) c1"
    by (auto simp: BatchesCache_insert_def Let_def split: option.splits)
  have h: "batches_cache_cs \<in> set (held_locks (locking ?c0 @ [Acquire mst_state_access]))"
    using held_under_insert [of "locking c"] by (simp add: lock_op_def)
  from insertMSTCache_stores [OF 1 h] 2
  show "batches_cache c' = batches_cache c" and "used_batches_cache c' = used_batches_cache c"
    by (simp_all add: lock_op_def)
qed

lemma insert_promotion_does_not_return:
  assumes "\<not> hasAll b"
    and "map_of (mst_pending (mst_state c)) (reducedHash b) = Some info"
    and "mergeSignaturesInBatch (batch info) b [] = (target, True, diff)"
    and "hasAll target"
  shows "BatchesCache_insert hasAll c b = None"
  using assms held_under_insert [of "locking c"]
  by (simp add: BatchesCache_insert_def insertMSTCache_def Let_def lock_op_def)


section \<open>Claiming batches for a proposal\<close>


lemma loop_append:
  "processReceivedProposal_loop (xs @ ys) s
     = processReceivedProposal_loop ys (processReceivedProposal_loop xs s)"
  by (induction xs s rule: processReceivedProposal_loop.induct) simp_all

lemma removeBatch_batches [simp]:
  "batches (snd (BatchesContext_removeBatch ctx b)) = erase_batch b (batches ctx)"
  by (simp add: BatchesContext_removeBatch_def Let_def)

lemma removeBatch_absent:
  "\<not> contains_batch (batches ctx) b \<Longrightarrow> snd (BatchesContext_removeBatch ctx b) = ctx"
  by (simp add: BatchesContext_removeBatch_def Let_def erase_batch_id)

lemma insert_present:
  "contains_batch (batches ctx) b \<Longrightarrow> snd (BatchesContext_insert ctx b) = ctx"
  by (simp add: BatchesContext_insert_def Let_def)

lemma contains_erase:
  "contains_batch (erase_batch b bs) x \<longleftrightarrow> contains_batch bs x \<and> reducedHash x \<noteq> reducedHash b"
  by (auto simp: contains_batch_def erase_batch_def image_iff)

lemma contains_insert:
  "contains_batch (batches (snd (BatchesContext_insert ctx b))) x
     \<longleftrightarrow> contains_batch (batches ctx) x \<or> reducedHash x = reducedHash b"
  by (auto simp: BatchesContext_insert_def Let_def contains_batch_def image_iff)

lemma loop_keys:
  "contains_batch (batches (fst (processReceivedProposal_loop xs (av, used)))) x
     \<longleftrightarrow> contains_batch (batches av) x \<and> reducedHash x \<notin> reducedHash ` set xs"
  "contains_batch (batches (snd (processReceivedProposal_loop xs (av, used)))) x
     \<longleftrightarrow> contains_batch (batches used) x \<or> reducedHash x \<in> reducedHash ` set xs"
  by (induction xs arbitrary: av used) (auto simp: contains_erase contains_insert)

lemma loop_duplicate:
  assumes "reducedHash b \<in> reducedHash ` set xs"
  shows "processReceivedProposal_loop (xs @ b # ys) s = processReceivedProposal_loop (xs @ ys) s"
proof -
  obtain av used where s: "s = (av, used)" by (cases s)
  obtain av' used' where r: "processReceivedProposal_loop xs (av, used) = (av', used')"
    by (cases "processReceivedProposal_loop xs (av, used)")
  from loop_keys [of xs av used b] assms r
  have "\<not> contains_batch (batches av') b" "contains_batch (batches used') b" by simp_all
  then show ?thesis
    by (simp add: loop_append s r removeBatch_absent insert_present)
qed

lemma merge_loop_all:
  "is_set (batches self @ rest) \<Longrightarrow>
   merge_loop rest self kept fc
     = (\<lparr>batches = batches self @ rest, tx_count = tx_count self + BatchesContext_count rest\<rparr>,
        \<lparr>batches = kept, tx_count = fc - BatchesContext_count rest\<rparr>)"
proof (induction rest arbitrary: self fc)
  case Nil
  then show ?case by simp
next
  case (Cons b rest)
  from Cons.prems have nb: "\<not> contains_batch (batches self) b"
    by (auto simp: is_set_def contains_batch_def)
  let ?self = "\<lparr>batches = batches self @ [b], tx_count = tx_count self + txs_size b\<rparr>"
  from Cons.prems have "is_set (batches ?self @ rest)" by (simp add: is_set_def)
  from Cons.IH [OF this] nb show ?case by (simp add: algebra_simps)
qed

lemma erase_member:
  "is_set bs \<Longrightarrow> b \<in> set bs \<Longrightarrow> set (erase_batch b bs) = set bs - {b}"
  by (auto simp: erase_batch_def is_set_def distinct_map dest: inj_onD)

lemma loop_repartitions:
  assumes "is_set (batches av @ batches used)"
    and "set bs \<subseteq> set (batches av) \<union> set (batches used)"
    and "processReceivedProposal_loop bs (av, used) = (av', used')"
  shows "is_set (batches av' @ batches used')
       \<and> set (batches av') \<union> set (batches used') = set (batches av) \<union> set (batches used)
       \<and> tx_count av' + tx_count used' = tx_count av + tx_count used
       \<and> tx_count av' + BatchesContext_count (batches used')
           = tx_count av + BatchesContext_count (batches used)"
  using assms
proof (induction bs arbitrary: av used)
  case Nil
  then show ?case by simp
next
  case (Cons b bs)
  let ?av = "snd (BatchesContext_removeBatch av b)"
  let ?used = "snd (BatchesContext_insert used b)"
  have step: "processReceivedProposal_loop bs (?av, ?used) = (av', used')"
    using Cons.prems(3) by simp
  from Cons.prems(2) have "b \<in> set (batches av) \<or> b \<in> set (batches used)" by auto
  then have "is_set (batches ?av @ batches ?used)
       \<and> set (batches ?av) \<union> set (batches ?used) = set (batches av) \<union> set (batches used)
       \<and> tx_count ?av + tx_count ?used = tx_count av + tx_count used
       \<and> tx_count ?av + BatchesContext_count (batches ?used)
           = tx_count av + BatchesContext_count (batches used)"
  proof
    assume b: "b \<in> set (batches used)"
    with Cons.prems(1) have 1: "contains_batch (batches used) b"
      and 2: "\<not> contains_batch (batches av) b"
      by (auto simp: is_set_def contains_batch_def)
    with Cons.prems(1) show ?thesis by (simp add: removeBatch_absent insert_present)
  next
    assume b: "b \<in> set (batches av)"
    with Cons.prems(1) have 1: "\<not> contains_batch (batches used) b"
      by (auto simp: is_set_def contains_batch_def)
    from b have 2: "contains_batch (batches av) b" by (auto simp: contains_batch_def)
    have 3: "set (erase_batch b (batches av)) = set (batches av) - {b}"
      using Cons.prems(1) b by (intro erase_member) (simp_all add: is_set_def)
    have 4: "is_set (erase_batch b (batches av) @ batches used @ [b])"
      using Cons.prems(1) b
      by (auto simp: is_set_def erase_batch_def distinct_map_filter image_iff)
    from 1 2 3 4 b erase_batch_length [OF 2] show ?thesis
      by (auto simp: BatchesContext_removeBatch_def BatchesContext_insert_def Let_def)
  qed
  with Cons.IH [OF _ _ step] Cons.prems(2) show ?case by auto
qed

lemma available_two_reached:
  "Option.bind (BatchesCache_insert two_signatures BatchesCache_init complete_12)
     (\<lambda>r. map_option snd (BatchesCache_insert two_signatures (snd r) complete_other))
   = Some available_two"
  by code_simp

lemma need_remove_empty [simp]: "need_remove {} b = False"
  by (simp add: need_remove_def list_ex_iff)

lemma removeMSTCache_loop_empty [simp]: "removeMSTCache_loop {} its st = st"
  by (induction its) simp_all

lemma remove_empty_stores:
  assumes "BatchesContext_merge (batches_cache c) (used_batches_cache c) = (av, used)"
  shows "batches_cache (BatchesCache_remove c {}) = av"
    and "used_batches_cache (BatchesCache_remove c {}) = used"
    and "mst_state (BatchesCache_remove c {}) = mst_state c"
  using assms
  by (simp_all add: BatchesCache_remove_def removeMSTCache_hashes_def lock_op_def Let_def
      BatchesContext_remove_def)

lemma processReceivedProposal_stores:
  assumes "processReceivedProposal_loop bs (batches_cache c, used_batches_cache c) = (av, used)"
  shows "batches_cache (processReceivedProposal c bs) = av"
    and "used_batches_cache (processReceivedProposal c bs) = used"
    and "mst_state (processReceivedProposal c bs) = mst_state c"
    and "notified (processReceivedProposal c bs) = notified c"
  using assms by (simp_all add: processReceivedProposal_def lock_op_def Let_def)

lemma processReceivedProposal_duplicate:
  "reducedHash b \<in> reducedHash ` set xs \<Longrightarrow>
   processReceivedProposal c (xs @ b # ys) = processReceivedProposal c (xs @ ys)"
  by (simp add: processReceivedProposal_def loop_duplicate)

lemma keys_erase:
  "reducedHash ` set (erase_batch b bs) = reducedHash ` set bs - {reducedHash b}"
  by (auto simp: erase_batch_def)

lemma keys_insert:
  "reducedHash ` set (batches (snd (BatchesContext_insert ctx b)))
     = insert (reducedHash b) (reducedHash ` set (batches ctx))"
  by (auto simp: BatchesContext_insert_def Let_def contains_batch_def)

lemma loop_key_sets:
  "reducedHash ` set (batches (fst (processReceivedProposal_loop xs (av, used))))
     = reducedHash ` set (batches av) - reducedHash ` set xs"
  "reducedHash ` set (batches (snd (processReceivedProposal_loop xs (av, used))))
     = reducedHash ` set (batches used) \<union> reducedHash ` set xs"
  by (induction xs arbitrary: av used) (auto simp: keys_erase keys_insert)

lemma loop_subsets:
  "set (batches (fst (processReceivedProposal_loop xs (av, used)))) \<subseteq> set (batches av)"
  "set (batches (snd (processReceivedProposal_loop xs (av, used))))
     \<subseteq> set (batches used) \<union> set xs"
proof (induction xs arbitrary: av used)
  case Nil
  { case 1 show ?case by simp }
  { case 2 show ?case by simp }
next
  case (Cons b xs)
  { case 1
    from Cons.IH(1) [of "snd (BatchesContext_removeBatch av b)" "snd (BatchesContext_insert used b)"]
    show ?case by (auto simp: erase_batch_def) }
  { case 2
    from Cons.IH(2) [of "snd (BatchesContext_removeBatch av b)" "snd (BatchesContext_insert used b)"]
    show ?case by (auto simp: BatchesContext_insert_def Let_def split: if_splits) }
qed

text \<open>
  One step of the loop of \<^verbatim>\<open>processReceivedProposal\<close>, for any batch: the two sets stay
  sets without a common reduced hash. When the reduced hash of the batch is in one of
  them, the step keeps the sum of the two counters.
\<close>

lemma claim_step_is_set:
  assumes "is_set (batches av @ batches used)"
  shows "is_set (batches (snd (BatchesContext_removeBatch av b))
                 @ batches (snd (BatchesContext_insert used b)))"
  using assms
  by (auto simp: is_set_def erase_batch_def BatchesContext_insert_def Let_def contains_batch_def
      distinct_map_filter image_iff)

lemma claim_step_counts:
  assumes "is_set (batches av @ batches used)"
    and "contains_batch (batches av) b \<or> contains_batch (batches used) b"
  shows "tx_count (snd (BatchesContext_removeBatch av b)) + tx_count (snd (BatchesContext_insert used b))
           = tx_count av + tx_count used"
    and "tx_count (snd (BatchesContext_removeBatch av b))
           + BatchesContext_count (batches (snd (BatchesContext_insert used b)))
           = tx_count av + BatchesContext_count (batches used)"
proof -
  show "tx_count (snd (BatchesContext_removeBatch av b)) + tx_count (snd (BatchesContext_insert used b))
           = tx_count av + tx_count used"
  proof (cases "contains_batch (batches av) b")
    case True
    with assms(1) have "\<not> contains_batch (batches used) b"
      by (auto simp: is_set_def contains_batch_def)
    with True erase_batch_length [OF True] show ?thesis
      by (simp add: BatchesContext_removeBatch_def BatchesContext_insert_def Let_def)
  next
    case False
    with assms(2) show ?thesis by (simp add: removeBatch_absent insert_present)
  qed
  show "tx_count (snd (BatchesContext_removeBatch av b))
           + BatchesContext_count (batches (snd (BatchesContext_insert used b)))
           = tx_count av + BatchesContext_count (batches used)"
  proof (cases "contains_batch (batches av) b")
    case True
    with assms(1) have "\<not> contains_batch (batches used) b"
      by (auto simp: is_set_def contains_batch_def)
    with True erase_batch_length [OF True] show ?thesis
      by (simp add: BatchesContext_removeBatch_def BatchesContext_insert_def Let_def)
  next
    case False
    with assms(2) show ?thesis by (simp add: removeBatch_absent insert_present)
  qed
qed

lemma loop_is_set:
  "is_set (batches av @ batches used) \<Longrightarrow>
   is_set (batches (fst (processReceivedProposal_loop bs (av, used)))
           @ batches (snd (processReceivedProposal_loop bs (av, used))))"
proof (induction bs arbitrary: av used)
  case Nil
  then show ?case by simp
next
  case (Cons b bs)
  from Cons.IH [OF claim_step_is_set [OF Cons.prems, of b]] show ?case by simp
qed

lemma loop_counts:
  assumes "is_set (batches av @ batches used)"
    and "\<forall>b\<in>set bs. contains_batch (batches av) b \<or> contains_batch (batches used) b"
  shows "tx_count (fst (processReceivedProposal_loop bs (av, used)))
           + tx_count (snd (processReceivedProposal_loop bs (av, used)))
         = tx_count av + tx_count used
       \<and> tx_count (fst (processReceivedProposal_loop bs (av, used)))
           + BatchesContext_count (batches (snd (processReceivedProposal_loop bs (av, used))))
         = tx_count av + BatchesContext_count (batches used)"
  using assms
proof (induction bs arbitrary: av used)
  case Nil
  show ?case by simp
next
  case (Cons b bs)
  let ?av = "snd (BatchesContext_removeBatch av b)"
  let ?used = "snd (BatchesContext_insert used b)"
  from Cons.prems(2) have here: "contains_batch (batches av) b \<or> contains_batch (batches used) b"
    by simp
  have rest: "\<forall>x\<in>set bs. contains_batch (batches ?av) x \<or> contains_batch (batches ?used) x"
  proof
    fix x assume "x \<in> set bs"
    with Cons.prems(2) have "contains_batch (batches av) x \<or> contains_batch (batches used) x"
      by simp
    then show "contains_batch (batches ?av) x \<or> contains_batch (batches ?used) x"
      by (auto simp: contains_erase contains_insert)
  qed
  from Cons.IH [OF claim_step_is_set [OF Cons.prems(1), of b] rest]
    claim_step_counts [OF Cons.prems(1) here]
  show ?case by simp
qed

lemma claim_then_remove:
  assumes "is_set (batches (batches_cache c))"
    and "set bs \<subseteq> set (batches (batches_cache c))"
    and "batches (used_batches_cache c) = []"
  shows "set (batches (batches_cache (BatchesCache_remove (processReceivedProposal c bs) {})))
           = set (batches (batches_cache c))
       \<and> tx_count (batches_cache (BatchesCache_remove (processReceivedProposal c bs) {}))
           = tx_count (batches_cache c)
       \<and> batches (used_batches_cache (BatchesCache_remove (processReceivedProposal c bs) {})) = []
       \<and> tx_count (used_batches_cache (BatchesCache_remove (processReceivedProposal c bs) {}))
           = tx_count (used_batches_cache c)
       \<and> mst_state (BatchesCache_remove (processReceivedProposal c bs) {}) = mst_state c"
proof -
  let ?c1 = "processReceivedProposal c bs"
  obtain av1 used1 where
    l: "processReceivedProposal_loop bs (batches_cache c, used_batches_cache c) = (av1, used1)"
    by (cases "processReceivedProposal_loop bs (batches_cache c, used_batches_cache c)")
  have "is_set (batches (batches_cache c) @ batches (used_batches_cache c))"
    using assms(1,3) by simp
  from loop_repartitions [OF this _ l] assms(2,3)
  have s1: "is_set (batches av1 @ batches used1)"
    and m1: "set (batches av1) \<union> set (batches used1) = set (batches (batches_cache c))"
    and t1: "tx_count av1 + tx_count used1
              = tx_count (batches_cache c) + tx_count (used_batches_cache c)"
    and n1: "tx_count av1 + BatchesContext_count (batches used1) = tx_count (batches_cache c)"
    by auto
  have c1: "batches_cache ?c1 = av1" "used_batches_cache ?c1 = used1" "mst_state ?c1 = mst_state c"
    using processReceivedProposal_stores [OF l] by simp_all
  have mg: "BatchesContext_merge (batches_cache ?c1) (used_batches_cache ?c1)
     = (\<lparr>batches = batches av1 @ batches used1,
          tx_count = tx_count av1 + BatchesContext_count (batches used1)\<rparr>,
        \<lparr>batches = [], tx_count = tx_count used1 - BatchesContext_count (batches used1)\<rparr>)"
    unfolding BatchesContext_merge_def c1 by (rule merge_loop_all [OF s1])
  have "tx_count av1 + tx_count used1
          = tx_count av1 + (BatchesContext_count (batches used1) + tx_count (used_batches_cache c))"
    using t1 n1 by (simp add: add.assoc [symmetric])
  then have "tx_count used1
          = BatchesContext_count (batches used1) + tx_count (used_batches_cache c)"
    by (rule add_left_imp_eq)
  then have "tx_count used1 - BatchesContext_count (batches used1)
          = tx_count (used_batches_cache c)"
    by simp
  with remove_empty_stores [OF mg] m1 n1 c1 show ?thesis by simp
qed

lemma claim_then_remove_by_hash:
  assumes "is_set (batches (batches_cache c))"
    and "\<forall>b\<in>set bs. contains_batch (batches (batches_cache c)) b"
    and "batches (used_batches_cache c) = []"
  shows "reducedHash ` set (batches (batches_cache
             (BatchesCache_remove (processReceivedProposal c bs) {})))
           = reducedHash ` set (batches (batches_cache c))
       \<and> set (batches (batches_cache (BatchesCache_remove (processReceivedProposal c bs) {})))
           \<subseteq> set (batches (batches_cache c)) \<union> set bs
       \<and> tx_count (batches_cache (BatchesCache_remove (processReceivedProposal c bs) {}))
           = tx_count (batches_cache c)
       \<and> batches (used_batches_cache (BatchesCache_remove (processReceivedProposal c bs) {})) = []
       \<and> tx_count (used_batches_cache (BatchesCache_remove (processReceivedProposal c bs) {}))
           = tx_count (used_batches_cache c)
       \<and> mst_state (BatchesCache_remove (processReceivedProposal c bs) {}) = mst_state c"
proof -
  let ?c1 = "processReceivedProposal c bs"
  let ?av = "batches_cache c" and ?used = "used_batches_cache c"
  obtain av1 used1 where
    l: "processReceivedProposal_loop bs (?av, ?used) = (av1, used1)"
    by (cases "processReceivedProposal_loop bs (?av, ?used)")
  have s0: "is_set (batches ?av @ batches ?used)" using assms(1,3) by simp
  have m0: "\<forall>b\<in>set bs. contains_batch (batches ?av) b \<or> contains_batch (batches ?used) b"
    using assms(2) by simp
  have s1: "is_set (batches av1 @ batches used1)"
    using loop_is_set [OF s0, of bs] l by simp
  have t1: "tx_count av1 + tx_count used1 = tx_count ?av + tx_count ?used"
    and n1: "tx_count av1 + BatchesContext_count (batches used1) = tx_count ?av"
    using loop_counts [OF s0 m0] l assms(3) by simp_all
  have k1: "reducedHash ` set (batches av1)
              = reducedHash ` set (batches ?av) - reducedHash ` set bs"
    and k2: "reducedHash ` set (batches used1) = reducedHash ` set bs"
    using loop_key_sets [of bs ?av ?used] l assms(3) by simp_all
  have "reducedHash ` set bs \<subseteq> reducedHash ` set (batches ?av)"
    using assms(2) by (auto simp: contains_batch_def)
  with k1 k2 have k: "reducedHash ` set (batches av1) \<union> reducedHash ` set (batches used1)
              = reducedHash ` set (batches ?av)"
    by auto
  have sub: "set (batches av1) \<union> set (batches used1) \<subseteq> set (batches ?av) \<union> set bs"
    using loop_subsets [of bs ?av ?used] l assms(3) by auto
  have c1: "batches_cache ?c1 = av1" "used_batches_cache ?c1 = used1" "mst_state ?c1 = mst_state c"
    using processReceivedProposal_stores [OF l] by simp_all
  have mg: "BatchesContext_merge (batches_cache ?c1) (used_batches_cache ?c1)
     = (\<lparr>batches = batches av1 @ batches used1,
          tx_count = tx_count av1 + BatchesContext_count (batches used1)\<rparr>,
        \<lparr>batches = [], tx_count = tx_count used1 - BatchesContext_count (batches used1)\<rparr>)"
    unfolding BatchesContext_merge_def c1 by (rule merge_loop_all [OF s1])
  have "tx_count av1 + tx_count used1
          = tx_count av1 + (BatchesContext_count (batches used1) + tx_count ?used)"
    using t1 n1 by (simp add: add.assoc [symmetric])
  then have "tx_count used1 = BatchesContext_count (batches used1) + tx_count ?used"
    by (rule add_left_imp_eq)
  then have u: "tx_count used1 - BatchesContext_count (batches used1) = tx_count ?used"
    by simp
  from remove_empty_stores [OF mg] k sub n1 u c1 show ?thesis
    by (simp add: image_Un)
qed

text \<open>
  C7, amended. A batch of the proposal whose reduced hash occurred earlier in the proposal
  changes nothing. When every batch of the proposal is a member of the available set,
  which is membership by reduced hash, and the in-flight set is empty,
  \<^verbatim>\<open>processReceivedProposal\<close> followed by \<^verbatim>\<open>remove\<close> of no hash leaves the available set with
  the reduced hashes and the transaction count it had before, made of its former members
  and of batches of the proposal, the in-flight set empty, and the pending store as it was.
  When the proposal holds the stored batches themselves, the members are the same batches.
\<close>

theorem claim_then_empty_remove:
  "(reducedHash b \<in> reducedHash ` set xs
      \<longrightarrow> processReceivedProposal c (xs @ b # ys) = processReceivedProposal c (xs @ ys))
   \<and> (is_set (batches (batches_cache c))
        \<and> (\<forall>b\<in>set bs. contains_batch (batches (batches_cache c)) b)
        \<and> batches (used_batches_cache c) = []
      \<longrightarrow> reducedHash ` set (batches (batches_cache
               (BatchesCache_remove (processReceivedProposal c bs) {})))
            = reducedHash ` set (batches (batches_cache c))
        \<and> set (batches (batches_cache (BatchesCache_remove (processReceivedProposal c bs) {})))
            \<subseteq> set (batches (batches_cache c)) \<union> set bs
        \<and> tx_count (batches_cache (BatchesCache_remove (processReceivedProposal c bs) {}))
            = tx_count (batches_cache c)
        \<and> batches (used_batches_cache (BatchesCache_remove (processReceivedProposal c bs) {})) = []
        \<and> tx_count (used_batches_cache (BatchesCache_remove (processReceivedProposal c bs) {}))
            = tx_count (used_batches_cache c)
        \<and> mst_state (BatchesCache_remove (processReceivedProposal c bs) {}) = mst_state c
        \<and> (set bs \<subseteq> set (batches (batches_cache c))
             \<longrightarrow> set (batches (batches_cache
                    (BatchesCache_remove (processReceivedProposal c bs) {})))
                 = set (batches (batches_cache c))))"
  using processReceivedProposal_duplicate [of b xs c ys] claim_then_remove_by_hash [of c bs]
    claim_then_remove [of c bs]
  by blast

theorem claim_then_empty_remove_witness:
  "reducedHash complete_12 \<in> reducedHash ` set [partial_1]
   \<and> is_set (batches (batches_cache available_two))
   \<and> contains_batch (batches (batches_cache available_two)) partial_1
   \<and> contains_batch (batches (batches_cache available_two)) complete_12
   \<and> batches (used_batches_cache available_two) = []
   \<and> processReceivedProposal available_two [partial_1, complete_12]
       = processReceivedProposal available_two [partial_1]
   \<and> batches (used_batches_cache (processReceivedProposal available_two [partial_1, complete_12]))
       = [partial_1]
   \<and> batches (batches_cache
        (BatchesCache_remove (processReceivedProposal available_two [partial_1, complete_12]) {}))
       = [complete_other, partial_1]
   \<and> reducedHash ` set (batches (batches_cache
        (BatchesCache_remove (processReceivedProposal available_two [partial_1, complete_12]) {})))
       = reducedHash ` set (batches (batches_cache available_two))
   \<and> tx_count (batches_cache
        (BatchesCache_remove (processReceivedProposal available_two [partial_1, complete_12]) {}))
       = 3
   \<and> batches (used_batches_cache
        (BatchesCache_remove (processReceivedProposal available_two [partial_1, complete_12]) {}))
       = []"
proof -
  have h1: "reducedHash complete_12 \<in> reducedHash ` set [partial_1]"
    by (simp add: example_defs)
  have h2: "is_set (batches (batches_cache available_two))"
    by (simp add: available_two_def is_set_def example_defs)
  have h3: "contains_batch (batches (batches_cache available_two)) partial_1"
    "contains_batch (batches (batches_cache available_two)) complete_12"
    by (simp_all add: available_two_def contains_batch_def example_defs)
  have h4: "batches (used_batches_cache available_two) = []"
    by (simp add: available_two_def BatchesContext_init_def)
  have e: "batches (used_batches_cache (processReceivedProposal available_two [partial_1, complete_12]))
       = [partial_1]"
    "batches (batches_cache
        (BatchesCache_remove (processReceivedProposal available_two [partial_1, complete_12]) {}))
       = [complete_other, partial_1]"
    by code_simp+
  have v: "tx_count (batches_cache available_two) = 3"
    by (simp add: available_two_def)
  note T = claim_then_empty_remove
    [of complete_12 "[partial_1]" available_two "[]" "[partial_1, complete_12]"]
  from T [THEN conjunct1, rule_format, OF h1]
  have d: "processReceivedProposal available_two [partial_1, complete_12]
          = processReceivedProposal available_two [partial_1]"
    by simp
  from T [THEN conjunct2, rule_format] h2 h3 h4 v
  have r: "reducedHash ` set (batches (batches_cache
        (BatchesCache_remove (processReceivedProposal available_two [partial_1, complete_12]) {})))
       = reducedHash ` set (batches (batches_cache available_two))"
     "tx_count (batches_cache
          (BatchesCache_remove (processReceivedProposal available_two [partial_1, complete_12]) {}))
         = 3"
     "batches (used_batches_cache
          (BatchesCache_remove (processReceivedProposal available_two [partial_1, complete_12]) {}))
         = []"
    by simp_all
  show ?thesis by (intro conjI h1 h2 h3 h4 d e r)
qed

text \<open>
  C7, as the claim states it for every collection of batches. A proposal with a batch that
  is not available, handled in the empty cache and followed by \<^verbatim>\<open>remove\<close> of no hash, puts
  the batch into the available set: one member and one transaction more than before.
  Likewise a batch claimed earlier and still in flight is made available again by the
  \<^verbatim>\<open>remove\<close> that follows a later claim.
\<close>

theorem claim_then_empty_remove_grows_available:
  "batches (batches_cache BatchesCache_init) = []
   \<and> batches (batches_cache
        (BatchesCache_remove (processReceivedProposal BatchesCache_init [complete_12]) {}))
       = [complete_12]
   \<and> tx_count (batches_cache BatchesCache_init) = 0
   \<and> tx_count (batches_cache
        (BatchesCache_remove (processReceivedProposal BatchesCache_init [complete_12]) {})) = 1
   \<and> tx_count (batches_cache
        (BatchesCache_remove (processReceivedProposal BatchesCache_init [complete_12]) {}))
       \<noteq> tx_count (batches_cache BatchesCache_init)
   \<and> batches (batches_cache (processReceivedProposal available_two [complete_12]))
       = [complete_other]
   \<and> batches (batches_cache
        (BatchesCache_remove
           (processReceivedProposal (processReceivedProposal available_two [complete_12])
              [complete_other]) {}))
       = [complete_12, complete_other]"
  by code_simp


section \<open>The available and the in-flight set on reachable states\<close>

text \<open>
  No reduced hash is in the available set and in the in-flight set of a reachable state:
  \<^verbatim>\<open>BatchesCache::insert\<close> looks the batch up in the in-flight set before it inserts, a
  returning \<^verbatim>\<open>insertMSTCache\<close> under \<^verbatim>\<open>BatchesCache::insert\<close> leaves both sets as they are,
  \<^verbatim>\<open>remove\<close> empties the in-flight set, and \<^verbatim>\<open>processReceivedProposal\<close> erases from the
  available set what it inserts into the in-flight set.
\<close>

lemma insert_available_is_set:
  assumes "is_set (batches av @ batches used)" and "\<not> contains_batch (batches used) b"
  shows "is_set (batches (snd (BatchesContext_insert av b)) @ batches used)"
  using assms
  by (auto simp: is_set_def BatchesContext_insert_def Let_def contains_batch_def image_iff)

lemma remove_stores:
  assumes "is_set (batches (batches_cache c) @ batches (used_batches_cache c))"
  shows "batches (batches_cache (BatchesCache_remove c hashes))
           = filter (\<lambda>b. \<not> need_remove hashes b)
               (batches (batches_cache c) @ batches (used_batches_cache c))"
    and "batches (used_batches_cache (BatchesCache_remove c hashes)) = []"
proof -
  let ?c0 = "removeMSTCache_hashes c hashes"
  have f: "batches_cache ?c0 = batches_cache c" "used_batches_cache ?c0 = used_batches_cache c"
    by (simp_all add: removeMSTCache_hashes_def lock_op_def Let_def)
  have mg: "BatchesContext_merge (batches_cache c) (used_batches_cache c)
     = (\<lparr>batches = batches (batches_cache c) @ batches (used_batches_cache c),
          tx_count = tx_count (batches_cache c)
                     + BatchesContext_count (batches (used_batches_cache c))\<rparr>,
        \<lparr>batches = [],
          tx_count = tx_count (used_batches_cache c)
                     - BatchesContext_count (batches (used_batches_cache c))\<rparr>)"
    unfolding BatchesContext_merge_def by (rule merge_loop_all [OF assms])
  show "batches (batches_cache (BatchesCache_remove c hashes))
           = filter (\<lambda>b. \<not> need_remove hashes b)
               (batches (batches_cache c) @ batches (used_batches_cache c))"
    and "batches (used_batches_cache (BatchesCache_remove c hashes)) = []"
    using mg f by (simp_all add: BatchesCache_remove_def lock_op_def Let_def BatchesContext_remove_def)
qed

lemma reachable_disjoint:
  assumes "reachable hasAll c"
  shows "is_set (batches (batches_cache c) @ batches (used_batches_cache c))"
  using assms
proof (induction rule: reachable.induct)
  case reachable_init
  show ?case by (simp add: BatchesCache_init_def BatchesContext_init_def is_set_def)
next
  case (reachable_insert c b n c')
  show ?case
  proof (cases "hasAll b")
    case True
    from insert_complete [of hasAll b c] True reachable_insert.hyps(2)
    have "batches_cache c' = (if \<not> contains_batch (batches (used_batches_cache c)) b
                            then snd (BatchesContext_insert (batches_cache c) b)
                            else batches_cache c)"
      and "used_batches_cache c' = used_batches_cache c"
      by auto
    with reachable_insert.IH show ?thesis
      by (simp add: insert_available_is_set)
  next
    case False
    from insert_partial_stores [OF False reachable_insert.hyps(2)] reachable_insert.IH
    show ?thesis by simp
  qed
next
  case (reachable_remove c hashes)
  have "is_set (filter (\<lambda>b. \<not> need_remove hashes b)
                  (batches (batches_cache c) @ batches (used_batches_cache c)))"
    using reachable_remove.IH unfolding is_set_def by (rule distinct_map_filter)
  with remove_stores [OF reachable_remove.IH, of hashes]
  show ?case by simp
next
  case (reachable_proposal c bs)
  obtain av used where
    l: "processReceivedProposal_loop bs (batches_cache c, used_batches_cache c) = (av, used)"
    by (cases "processReceivedProposal_loop bs (batches_cache c, used_batches_cache c)")
  from loop_is_set [OF reachable_proposal.IH, of bs] l processReceivedProposal_stores [OF l]
  show ?case by simp
qed

lemma available_two_reachable: "reachable two_signatures available_two"
proof -
  from available_two_reached obtain r n where
    1: "BatchesCache_insert two_signatures BatchesCache_init complete_12 = Some r"
    and 2: "BatchesCache_insert two_signatures (snd r) complete_other = Some (n, available_two)"
    by (auto simp: bind_eq_Some_conv)
  from 1 have "reachable two_signatures (snd r)"
    using reachable_insert [OF reachable_init, of two_signatures complete_12 "fst r" "snd r"]
    by simp
  from reachable_insert [OF this 2] show ?thesis .
qed

lemma available_pending_reached:
  "BatchesCache_insert two_signatures available_two partial_other = Some (3, available_pending)"
  by code_simp

lemma available_pending_reachable: "reachable two_signatures available_pending"
  using reachable_insert [OF available_two_reachable available_pending_reached] .

section \<open>The batches of the expiration index\<close>

lemma addSignature_hash: "hash (snd (addSignature tx sd pk)) = hash tx"
  by (simp add: addSignature_def)

lemma merge_signatures_hash: "hash (fst (merge_signatures ss tx ins diff)) = hash tx"
proof (induction ss arbitrary: tx ins diff)
  case Nil
  show ?case by simp
next
  case (Cons s ss)
  obtain new tx' where a: "addSignature tx (signedData s) (publicKey s) = (new, tx')"
    by (cases "addSignature tx (signedData s) (publicKey s)")
  from addSignature_hash [of tx "signedData s" "publicKey s"] a have "hash tx' = hash tx"
    by simp
  with Cons.IH [of tx'] a show ?case by (cases new) auto
qed

lemma merge_transactions_hashes:
  "map hash (fst (merge_transactions ts ds ins diff)) = map hash ts"
proof (induction ts ds ins diff rule: merge_transactions.induct)
  case (1 t ts d ds ins diff)
  obtain tx' ins' diff' where
    m: "merge_signatures (signatures d) t ins diff = (tx', ins', diff')"
    by (cases "merge_signatures (signatures d) t ins diff")
  from merge_signatures_hash [of "signatures d" t ins diff] m have "hash tx' = hash t" by simp
  with 1 [OF m [symmetric] refl] m show ?case by (auto split: prod.split)
qed simp_all

lemma mergeSignaturesInBatch_hashes:
  "map hash (transactions (fst (mergeSignaturesInBatch target donor diff)))
     = map hash (transactions target)"
  using merge_transactions_hashes [of "transactions target" "transactions donor" False diff]
  by (auto simp: mergeSignaturesInBatch_def split: prod.split)

lemma match_insert:
  assumes "expirations_match st"
  shows "expirations_match
           (st\<lparr>mst_pending := mst_pending st @ [(rh, \<lparr>batch = b, timestamp = ts\<rparr>)],
               mst_expirations := mst_expirations st @ [(ts, b)]\<rparr>)"
  using assms by (auto simp: expirations_match_def)

lemma match_set_resident:
  assumes "expirations_match st"
    and "map_of (mst_pending st) rh = Some info"
    and "distinct (map fst (mst_pending st))"
    and "map hash (transactions target) = map hash (transactions (batch info))"
  shows "expirations_match
           (st\<lparr>mst_pending := set_resident rh target (mst_pending st), mst_diff := diff\<rparr>)"
  unfolding expirations_match_def
proof
  fix q
  assume "q \<in> set (mst_expirations
            (st\<lparr>mst_pending := set_resident rh target (mst_pending st), mst_diff := diff\<rparr>))"
  then have "q \<in> set (mst_expirations st)" by simp
  with assms(1) obtain p where p: "p \<in> set (mst_pending st)" "timestamp (snd p) = fst q"
    "map hash (transactions (batch (snd p))) = map hash (transactions (snd q))"
    by (auto simp: expirations_match_def)
  let ?p = "if fst p = rh then (fst p, (snd p)\<lparr>batch := target\<rparr>) else p"
  have in': "?p \<in> set (set_resident rh target (mst_pending st))"
    using p(1) by (force simp: set_resident_def)
  have "fst p = rh \<Longrightarrow> snd p = info"
    using assms(2,3) p(1) map_of_SomeD [OF assms(2)]
    by (cases p) (auto dest: eq_key_imp_eq_value)
  with p(2,3) assms(4) have "timestamp (snd ?p) = fst q"
    "map hash (transactions (batch (snd ?p))) = map hash (transactions (snd q))"
    by auto
  with in' show "\<exists>p\<in>set (mst_pending
            (st\<lparr>mst_pending := set_resident rh target (mst_pending st), mst_diff := diff\<rparr>)).
          timestamp (snd p) = fst q
          \<and> map hash (transactions (batch (snd p))) = map hash (transactions (snd q))"
    by (intro bexI [of _ ?p]) simp_all
qed

lemma match_erase:
  assumes "expirations_match st"
    and "distinct (map fst (mst_pending st))"
    and "(rh, e) \<in> set (mst_pending st)"
  shows "expirations_match
           (st\<lparr>mst_expirations := erase_key (timestamp e) (mst_expirations st),
               mst_pending := erase_key rh (mst_pending st)\<rparr>)"
  unfolding expirations_match_def
proof
  fix q
  assume "q \<in> set (mst_expirations
            (st\<lparr>mst_expirations := erase_key (timestamp e) (mst_expirations st),
                mst_pending := erase_key rh (mst_pending st)\<rparr>))"
  then have q: "q \<in> set (mst_expirations st)" "fst q \<noteq> timestamp e"
    by (simp_all add: erase_key_def)
  with assms(1) obtain p where p: "p \<in> set (mst_pending st)" "timestamp (snd p) = fst q"
    "map hash (transactions (batch (snd p))) = map hash (transactions (snd q))"
    by (auto simp: expirations_match_def)
  have "fst p \<noteq> rh"
  proof
    assume "fst p = rh"
    with assms(2,3) p(1) have "snd p = e"
      by (cases p) (auto dest: eq_key_imp_eq_value)
    with p(2) q(2) show False by simp
  qed
  with p show "\<exists>p\<in>set (mst_pending
            (st\<lparr>mst_expirations := erase_key (timestamp e) (mst_expirations st),
                mst_pending := erase_key rh (mst_pending st)\<rparr>)).
          timestamp (snd p) = fst q
          \<and> map hash (transactions (batch (snd p))) = map hash (transactions (snd q))"
    by (intro bexI [of _ p]) (simp_all add: erase_key_def)
qed

lemma insertMSTCache_match:
  assumes "pending_inv (mst_state c)" and "expirations_match (mst_state c)"
    and "insertMSTCache hasAll c b = Some c'"
  shows "expirations_match (mst_state c')"
proof (cases "map_of (mst_pending (mst_state c)) (reducedHash b)")
  case None
  with assms(3) obtain ts where
    c': "mst_state c' = (mst_state c)
       \<lparr>mst_pending := mst_pending (mst_state c) @ [(reducedHash b, \<lparr>batch = b, timestamp = ts\<rparr>)],
        mst_expirations := mst_expirations (mst_state c) @ [(ts, b)]\<rparr>"
    by (auto simp: insertMSTCache_def Let_def lock_op_def notify_def split: option.splits)
  from match_insert [OF assms(2), where rh = "reducedHash b" and b = b and ts = ts] c' show ?thesis by simp
next
  case (Some info)
  obtain target ins diff where
    m: "mergeSignaturesInBatch (batch info) b [] = (target, ins, diff)"
    by (cases "mergeSignaturesInBatch (batch info) b []")
  from assms(1) have dp: "distinct (map fst (mst_pending (mst_state c)))"
    by (simp add: pending_inv_def)
  from mergeSignaturesInBatch_hashes [of "batch info" b "[]"] m
  have hs: "map hash (transactions target) = map hash (transactions (batch info))" by simp
  let ?st1 = "(mst_state c)\<lparr>mst_pending := set_resident (reducedHash b) target (mst_pending (mst_state c)),
                             mst_diff := diff\<rparr>"
  have i1: "expirations_match ?st1" by (rule match_set_resident [OF assms(2) Some dp hs])
  have d1: "distinct (map fst (mst_pending ?st1))" using dp by simp
  have e: "(reducedHash b, info\<lparr>batch := target\<rparr>) \<in> set (mst_pending ?st1)"
    using set_resident_entry [OF Some] by simp
  from match_erase [OF i1 d1 e]
  have i2: "expirations_match (?st1\<lparr>mst_expirations := erase_key (timestamp info) (mst_expirations ?st1),
                          mst_pending := erase_key (reducedHash b) (mst_pending ?st1)\<rparr>)"
    by simp
  from assms(3) Some m have
    "mst_state c' = ?st1 \<or>
     mst_state c' = ?st1\<lparr>mst_expirations := erase_key (timestamp info) (mst_expirations ?st1),
                          mst_pending := erase_key (reducedHash b) (mst_pending ?st1)\<rparr>"
    by (auto simp: insertMSTCache_def Let_def lock_op_def notify_def split: if_splits)
  with i1 i2 show ?thesis by auto
qed

lemma removeMSTCache_match:
  assumes "pending_inv (mst_state c)" and "expirations_match (mst_state c)"
  shows "expirations_match (mst_state (removeMSTCache c b))"
proof (cases "map_of (mst_pending (mst_state c)) (reducedHash b)")
  case None
  with assms show ?thesis by (simp add: removeMSTCache_def Let_def lock_op_def)
next
  case (Some info)
  from assms(1) have dp: "distinct (map fst (mst_pending (mst_state c)))"
    by (simp add: pending_inv_def)
  from match_erase [OF assms(2) dp map_of_SomeD [OF Some]] Some show ?thesis
    by (simp add: removeMSTCache_def Let_def lock_op_def)
qed

lemma removeMSTCache_loop_match:
  "expirations_match st \<Longrightarrow> distinct (map fst (mst_pending st)) \<Longrightarrow> distinct (map fst its)
   \<Longrightarrow> set its \<subseteq> set (mst_pending st) \<Longrightarrow>
   expirations_match (removeMSTCache_loop hashes its st)"
proof (induction its arbitrary: st)
  case Nil
  then show ?case by simp
next
  case (Cons it rest)
  show ?case
  proof (cases "need_remove hashes (batch (snd it))")
    case False
    with Cons show ?thesis by simp
  next
    case True
    let ?st = "st\<lparr>mst_expirations := erase_key (timestamp (snd it)) (mst_expirations st),
                   mst_pending := erase_key (fst it) (mst_pending st)\<rparr>"
    from Cons.prems(4) have "(fst it, snd it) \<in> set (mst_pending st)" by simp
    from match_erase [OF Cons.prems(1,2) this] have 1: "expirations_match ?st" .
    have 2: "distinct (map fst (mst_pending ?st))"
      using Cons.prems(2) by (simp add: erase_key_def distinct_map_filter)
    from Cons.prems(3) have 3: "distinct (map fst rest)" by simp
    from Cons.prems(3,4) have 4: "set rest \<subseteq> set (mst_pending ?st)"
      by (auto simp: erase_key_def image_iff)
    from Cons.IH [OF 1 2 3 4] True show ?thesis by simp
  qed
qed

lemma BatchesCache_insert_match:
  assumes "pending_inv (mst_state c)" and "expirations_match (mst_state c)"
    and "BatchesCache_insert hasAll c b = Some (n, c')"
  shows "expirations_match (mst_state c')"
proof (cases "hasAll b")
  case True
  from insert_complete [of hasAll b c] True assms(3)
  have "mst_state c' = mst_state (removeMSTCache c b)" by auto
  with removeMSTCache_match [OF assms(1,2), of b] show ?thesis by simp
next
  case False
  let ?c0 = "lock_op (Acquire batches_cache_cs) c"
  from assms(3) False obtain c1 where
    1: "insertMSTCache hasAll ?c0 b = Some c1" and 2: "mst_state c' = mst_state c1"
    by (auto simp: BatchesCache_insert_def Let_def lock_op_def split: option.splits)
  have "pending_inv (mst_state ?c0)" "expirations_match (mst_state ?c0)"
    using assms(1,2) by (simp_all add: lock_op_def)
  from insertMSTCache_match [OF this 1] 2 show ?thesis by simp
qed

lemma BatchesCache_remove_match:
  assumes "pending_inv (mst_state c)" and "expirations_match (mst_state c)"
  shows "expirations_match (mst_state (BatchesCache_remove c hashes))"
proof -
  from assms(1) have dp: "distinct (map fst (mst_pending (mst_state c)))"
    by (simp add: pending_inv_def)
  from removeMSTCache_loop_match [OF assms(2) dp dp subset_refl, of hashes] show ?thesis
    by (simp add: BatchesCache_remove_def removeMSTCache_hashes_def Let_def lock_op_def
        split: prod.split)
qed

lemma reachable_match:
  "reachable hasAll c \<Longrightarrow> expirations_match (mst_state c)"
proof (induction rule: reachable.induct)
  case reachable_init
  show ?case
    by (simp add: BatchesCache_init_def MSTState_init_def expirations_match_def)
next
  case (reachable_insert c b n c')
  from BatchesCache_insert_match
    [OF reachable_pending_inv [OF reachable_insert.hyps(1)] reachable_insert.IH
      reachable_insert.hyps(2)]
  show ?case .
next
  case (reachable_remove c hashes)
  from BatchesCache_remove_match
    [OF reachable_pending_inv [OF reachable_remove.hyps] reachable_remove.IH]
  show ?case .
next
  case (reachable_proposal c bs)
  then show ?case by simp
qed


section \<open>What \<^verbatim>\<open>remove\<close> leaves in the stores\<close>

lemma removeMSTCache_loop_pending:
  "mst_pending (removeMSTCache_loop hashes its st)
     = filter (\<lambda>p. fst p \<notin> fst ` {it \<in> set its. need_remove hashes (batch (snd it))})
         (mst_pending st)"
proof (induction its arbitrary: st)
  case Nil
  show ?case by simp
next
  case (Cons it rest)
  show ?case
  proof (cases "need_remove hashes (batch (snd it))")
    case False
    have "{x \<in> set (it # rest). need_remove hashes (batch (snd x))}
            = {x \<in> set rest. need_remove hashes (batch (snd x))}"
      using False by auto
    with Cons.IH [of st] False show ?thesis by simp
  next
    case True
    have "{x \<in> set (it # rest). need_remove hashes (batch (snd x))}
            = insert it {x \<in> set rest. need_remove hashes (batch (snd x))}"
      using True by auto
    with Cons.IH True show ?thesis
      by (simp add: erase_key_def conj_commute)
  qed
qed

lemma remove_pending:
  "\<forall>p\<in>set (mst_pending (mst_state (BatchesCache_remove c hashes))).
     \<not> need_remove hashes (batch (snd p))"
proof -
  have p: "mst_pending (mst_state (BatchesCache_remove c hashes))
     = filter (\<lambda>p. fst p \<notin> fst ` {it \<in> set (mst_pending (mst_state c)).
                                    need_remove hashes (batch (snd it))})
         (mst_pending (mst_state c))"
    by (simp add: BatchesCache_remove_def removeMSTCache_hashes_def lock_op_def Let_def
        removeMSTCache_loop_pending split: prod.split)
  show ?thesis unfolding p by (force simp: image_iff)
qed

lemma need_remove_hashes:
  "need_remove hashes b \<longleftrightarrow> set (map hash (transactions b)) \<inter> hashes \<noteq> {}"
  by (auto simp: need_remove_def list_ex_iff)

lemma remove_expirations:
  assumes "reachable hasAll c"
  shows "\<forall>q\<in>set (mst_expirations (mst_state (BatchesCache_remove c hashes))).
           \<not> need_remove hashes (snd q)"
proof
  fix q assume q: "q \<in> set (mst_expirations (mst_state (BatchesCache_remove c hashes)))"
  from reachable_match [OF reachable_remove [OF assms, of hashes]] q
  obtain p where p: "p \<in> set (mst_pending (mst_state (BatchesCache_remove c hashes)))"
    "map hash (transactions (batch (snd p))) = map hash (transactions (snd q))"
    by (auto simp: expirations_match_def)
  from remove_pending [of c hashes] p(1) have "\<not> need_remove hashes (batch (snd p))" by simp
  with p(2) show "\<not> need_remove hashes (snd q)" by (simp add: need_remove_hashes)
qed

lemma need_remove_iff:
  "\<not> need_remove hashes b \<longleftrightarrow> (\<forall>tx\<in>set (transactions b). hash tx \<notin> hashes)"
  by (simp add: need_remove_def list_ex_iff)

text \<open>
  C3. On every reachable state and for every set of hashes, \<^verbatim>\<open>remove\<close> leaves the in-flight
  set empty, and no batch of the available set and no batch of either index of the pending
  store holds a transaction whose hash is in the set.
\<close>

theorem remove_clears_hashes:
  assumes "reachable hasAll c"
  shows "batches (used_batches_cache (BatchesCache_remove c H)) = []
       \<and> (\<forall>b\<in>set (batches (batches_cache (BatchesCache_remove c H))).
            \<forall>tx\<in>set (transactions b). hash tx \<notin> H)
       \<and> (\<forall>p\<in>set (mst_pending (mst_state (BatchesCache_remove c H))).
            \<forall>tx\<in>set (transactions (batch (snd p))). hash tx \<notin> H)
       \<and> (\<forall>q\<in>set (mst_expirations (mst_state (BatchesCache_remove c H))).
            \<forall>tx\<in>set (transactions (snd q)). hash tx \<notin> H)"
proof -
  note d = reachable_disjoint [OF assms]
  have "\<forall>b\<in>set (batches (batches_cache (BatchesCache_remove c H))). \<not> need_remove H b"
    using remove_stores(1) [OF d, of H] by auto
  with remove_stores(2) [OF d, of H] remove_pending [of c H] remove_expirations [OF assms, of H]
  show ?thesis by (simp add: need_remove_iff)
qed

theorem remove_clears_hashes_witness:
  "reachable two_signatures (processReceivedProposal available_pending [complete_12])
   \<and> batches (batches_cache (processReceivedProposal available_pending [complete_12]))
       = [complete_other]
   \<and> batches (used_batches_cache (processReceivedProposal available_pending [complete_12]))
       = [complete_12]
   \<and> map fst (mst_pending (mst_state (processReceivedProposal available_pending [complete_12])))
       = [3]
   \<and> map fst (mst_expirations
        (mst_state (processReceivedProposal available_pending [complete_12])))
       = [0]
   \<and> batches (used_batches_cache
        (BatchesCache_remove (processReceivedProposal available_pending [complete_12]) {7, 11}))
       = []
   \<and> batches (batches_cache
        (BatchesCache_remove (processReceivedProposal available_pending [complete_12]) {7, 11}))
       = [complete_other]
   \<and> mst_pending (mst_state
        (BatchesCache_remove (processReceivedProposal available_pending [complete_12]) {7, 11}))
       = []
   \<and> mst_expirations (mst_state
        (BatchesCache_remove (processReceivedProposal available_pending [complete_12]) {7, 11}))
       = []"
proof -
  let ?c = "processReceivedProposal available_pending [complete_12]"
  have r: "reachable two_signatures ?c"
    by (rule reachable_proposal [OF available_pending_reachable])
  have e: "batches (batches_cache ?c) = [complete_other]"
    "batches (used_batches_cache ?c) = [complete_12]"
    "map fst (mst_pending (mst_state ?c)) = [3]"
    "map fst (mst_expirations (mst_state ?c)) = [0]"
    "batches (batches_cache (BatchesCache_remove ?c {7, 11})) = [complete_other]"
    "mst_pending (mst_state (BatchesCache_remove ?c {7, 11})) = []"
    "mst_expirations (mst_state (BatchesCache_remove ?c {7, 11})) = []"
    by code_simp+
  from remove_clears_hashes [OF r, of "{7, 11}"]
  have u: "batches (used_batches_cache (BatchesCache_remove ?c {7, 11})) = []"
    by simp
  show ?thesis by (intro conjI r e u)
qed

section \<open>\<^verbatim>\<open>processReceivedProposal\<close> on batches of the available set\<close>

lemma processReceivedProposal_repartitions:
  assumes "is_set (batches (batches_cache c) @ batches (used_batches_cache c))"
    and "set bs \<subseteq> set (batches (batches_cache c))"
  shows "set (batches (batches_cache (processReceivedProposal c bs)))
           \<union> set (batches (used_batches_cache (processReceivedProposal c bs)))
         = set (batches (batches_cache c)) \<union> set (batches (used_batches_cache c))"
proof -
  obtain av1 used1 where
    l: "processReceivedProposal_loop bs (batches_cache c, used_batches_cache c) = (av1, used1)"
    by (cases "processReceivedProposal_loop bs (batches_cache c, used_batches_cache c)")
  from assms(2) have "set bs \<subseteq> set (batches (batches_cache c)) \<union> set (batches (used_batches_cache c))"
    by auto
  from loop_repartitions [OF assms(1) this l] processReceivedProposal_stores [OF l]
  show ?thesis by simp
qed

lemma processReceivedProposal_by_hash:
  assumes "is_set (batches (batches_cache c) @ batches (used_batches_cache c))"
    and "\<forall>b\<in>set bs. contains_batch (batches (batches_cache c)) b"
  shows "txsCount (processReceivedProposal c bs) = txsCount c"
    and "reducedHash ` set (batches (batches_cache (processReceivedProposal c bs)))
           = reducedHash ` set (batches (batches_cache c)) - reducedHash ` set bs"
    and "reducedHash ` set (batches (used_batches_cache (processReceivedProposal c bs)))
           = reducedHash ` set (batches (used_batches_cache c)) \<union> reducedHash ` set bs"
    and "set (batches (batches_cache (processReceivedProposal c bs)))
           \<subseteq> set (batches (batches_cache c))"
    and "set (batches (used_batches_cache (processReceivedProposal c bs)))
           \<subseteq> set (batches (used_batches_cache c)) \<union> set bs"
proof -
  let ?av = "batches_cache c" and ?used = "used_batches_cache c"
  obtain av1 used1 where
    l: "processReceivedProposal_loop bs (?av, ?used) = (av1, used1)"
    by (cases "processReceivedProposal_loop bs (?av, ?used)")
  have m: "\<forall>b\<in>set bs. contains_batch (batches ?av) b \<or> contains_batch (batches ?used) b"
    using assms(2) by simp
  note st = processReceivedProposal_stores [OF l]
  from loop_counts [OF assms(1) m] l st
  show "txsCount (processReceivedProposal c bs) = txsCount c"
    by (simp add: txsCount_def getTxsCount_def)
  from loop_key_sets [of bs ?av ?used] l st
  show "reducedHash ` set (batches (batches_cache (processReceivedProposal c bs)))
           = reducedHash ` set (batches (batches_cache c)) - reducedHash ` set bs"
    and "reducedHash ` set (batches (used_batches_cache (processReceivedProposal c bs)))
           = reducedHash ` set (batches (used_batches_cache c)) \<union> reducedHash ` set bs"
    by simp_all
  from loop_subsets [of bs ?av ?used] l st
  show "set (batches (batches_cache (processReceivedProposal c bs)))
           \<subseteq> set (batches (batches_cache c))"
    and "set (batches (used_batches_cache (processReceivedProposal c bs)))
           \<subseteq> set (batches (used_batches_cache c)) \<union> set bs"
    by simp_all
qed

text \<open>
  C10. On a reachable state, \<^verbatim>\<open>processReceivedProposal\<close> on batches that are members of the
  available set, which is membership by reduced hash, leaves \<^verbatim>\<open>txsCount\<close> as it was and
  moves the reduced hashes of the proposal from the available set to the in-flight set:
  the reduced hashes of the two sets together are the same as before. The available set
  keeps batches it had, and the in-flight set holds batches it had and batches of the
  proposal. When the proposal holds the stored batches themselves, the batches of the two
  sets together are the same as before.
\<close>

theorem claim_keeps_total_and_union:
  assumes "reachable hasAll c"
    and "\<forall>b\<in>set bs. contains_batch (batches (batches_cache c)) b"
  shows "txsCount (processReceivedProposal c bs) = txsCount c
       \<and> reducedHash ` set (batches (batches_cache (processReceivedProposal c bs)))
           = reducedHash ` set (batches (batches_cache c)) - reducedHash ` set bs
       \<and> reducedHash ` set (batches (used_batches_cache (processReceivedProposal c bs)))
           = reducedHash ` set (batches (used_batches_cache c)) \<union> reducedHash ` set bs
       \<and> reducedHash ` (set (batches (batches_cache (processReceivedProposal c bs)))
                         \<union> set (batches (used_batches_cache (processReceivedProposal c bs))))
           = reducedHash ` (set (batches (batches_cache c))
                            \<union> set (batches (used_batches_cache c)))
       \<and> set (batches (batches_cache (processReceivedProposal c bs)))
           \<subseteq> set (batches (batches_cache c))
       \<and> set (batches (used_batches_cache (processReceivedProposal c bs)))
           \<subseteq> set (batches (used_batches_cache c)) \<union> set bs
       \<and> (set bs \<subseteq> set (batches (batches_cache c))
            \<longrightarrow> set (batches (batches_cache (processReceivedProposal c bs)))
                  \<union> set (batches (used_batches_cache (processReceivedProposal c bs)))
                = set (batches (batches_cache c)) \<union> set (batches (used_batches_cache c)))"
proof -
  note d = reachable_disjoint [OF assms(1)]
  note h = processReceivedProposal_by_hash [OF d assms(2)]
  have "reducedHash ` set bs \<subseteq> reducedHash ` set (batches (batches_cache c))"
    using assms(2) by (auto simp: contains_batch_def)
  with h(2,3)
  have u: "reducedHash ` (set (batches (batches_cache (processReceivedProposal c bs)))
                         \<union> set (batches (used_batches_cache (processReceivedProposal c bs))))
           = reducedHash ` (set (batches (batches_cache c))
                            \<union> set (batches (used_batches_cache c)))"
    unfolding image_Un by blast
  from h u processReceivedProposal_repartitions [OF d, of bs] show ?thesis
    by blast
qed

theorem claim_keeps_total_and_union_witness:
  "reachable two_signatures available_pending
   \<and> contains_batch (batches (batches_cache available_pending)) partial_2
   \<and> contains_batch (batches (batches_cache available_pending)) complete_other
   \<and> txsCount available_pending = 3
   \<and> txsCount (processReceivedProposal available_pending [partial_2, complete_other]) = 3
   \<and> availableTxsCount (processReceivedProposal available_pending [partial_2, complete_other]) = 0
   \<and> batches (used_batches_cache
        (processReceivedProposal available_pending [partial_2, complete_other]))
       = [partial_2, complete_other]
   \<and> reducedHash ` (set (batches (batches_cache
          (processReceivedProposal available_pending [partial_2, complete_other])))
        \<union> set (batches (used_batches_cache
          (processReceivedProposal available_pending [partial_2, complete_other]))))
       = reducedHash ` (set (batches (batches_cache available_pending))
                        \<union> set (batches (used_batches_cache available_pending)))"
proof -
  let ?bs = "[partial_2, complete_other]"
  have m: "contains_batch (batches (batches_cache available_pending)) partial_2"
    "contains_batch (batches (batches_cache available_pending)) complete_other"
    by (simp_all add: available_pending_def contains_batch_def example_defs)
  then have a: "\<forall>b\<in>set ?bs. contains_batch (batches (batches_cache available_pending)) b"
    by simp
  have e: "txsCount available_pending = 3"
    "availableTxsCount (processReceivedProposal available_pending ?bs) = 0"
    "batches (used_batches_cache (processReceivedProposal available_pending ?bs)) = ?bs"
    by code_simp+
  note T = claim_keeps_total_and_union [OF available_pending_reachable a]
  from T e(1) have t: "txsCount (processReceivedProposal available_pending ?bs) = 3"
    by simp
  from T have u: "reducedHash ` (set (batches (batches_cache
          (processReceivedProposal available_pending ?bs)))
        \<union> set (batches (used_batches_cache (processReceivedProposal available_pending ?bs))))
       = reducedHash ` (set (batches (batches_cache available_pending))
                        \<union> set (batches (used_batches_cache available_pending)))"
    by blast
  show ?thesis by (intro conjI available_pending_reachable m e t u)
qed


section \<open>Merging the signatures of two partial batches\<close>

lemma addSignature_signatures:
  "set (signatures (snd (addSignature tx sd pk))) = insert (Signature sd pk) (set (signatures tx))"
  by (auto simp: addSignature_def)

lemma merge_signatures_set:
  "set (signatures (fst (merge_signatures ss tx ins diff))) = set (signatures tx) \<union> set ss"
proof (induction ss arbitrary: tx ins diff)
  case Nil
  show ?case by simp
next
  case (Cons s ss)
  obtain new tx' where a: "addSignature tx (signedData s) (publicKey s) = (new, tx')"
    by (cases "addSignature tx (signedData s) (publicKey s)")
  from addSignature_signatures [of tx "signedData s" "publicKey s"] a
  have "set (signatures tx') = insert s (set (signatures tx))" by simp
  with Cons.IH [of tx'] a show ?case by (cases new) auto
qed

lemma merge_transactions_sigs:
  "length ts = length ds \<Longrightarrow>
   map (\<lambda>tx. set (signatures tx)) (fst (merge_transactions ts ds ins diff))
     = map (\<lambda>s. fst s \<union> snd s)
         (zip (map (\<lambda>tx. set (signatures tx)) ts) (map (\<lambda>tx. set (signatures tx)) ds))"
proof (induction ts ds arbitrary: ins diff rule: list_induct2)
  case Nil
  show ?case by simp
next
  case (Cons t ts d ds)
  obtain tx' ins' diff' where
    m: "merge_signatures (signatures d) t ins diff = (tx', ins', diff')"
    by (cases "merge_signatures (signatures d) t ins diff")
  from merge_signatures_set [of "signatures d" t ins diff] m
  have "set (signatures tx') = set (signatures t) \<union> set (signatures d)" by simp
  with Cons.IH [of ins' diff'] m show ?case by (auto split: prod.split)
qed

lemma mergeSignaturesInBatch_sigs:
  assumes "length (transactions target) = length (transactions donor)"
  shows "sigs (fst (mergeSignaturesInBatch target donor diff)) = sigs_union target donor"
    and "reducedHash (fst (mergeSignaturesInBatch target donor diff)) = reducedHash target"
  using merge_transactions_sigs [OF assms, of False diff]
  by (auto simp: mergeSignaturesInBatch_def sigs_def sigs_union_def split: prod.split)

lemma find_last:
  "\<forall>y\<in>set xs. \<not> P y \<Longrightarrow> P x \<Longrightarrow> find P (xs @ [x]) = Some x"
  by (induction xs) simp_all

lemma map_of_snoc:
  "map_of al k = None \<Longrightarrow> map_of (al @ [(k, v)]) k = Some v"
  by (induction al) (auto split: if_splits)

lemma map_of_set_resident:
  "map_of al rh = Some info \<Longrightarrow>
   map_of (set_resident rh target al) rh = Some (info\<lparr>batch := target\<rparr>)"
  by (induction al) (auto simp: set_resident_def)

lemma insertMSTCache_new:
  assumes "map_of (mst_pending (mst_state c)) (reducedHash b) = None"
    and "t \<notin> fst ` set (mst_expirations (mst_state c))"
  shows "\<exists>ts c'. insertMSTCache hasAll c b = Some c'
      \<and> mst_pending (mst_state c')
          = mst_pending (mst_state c) @ [(reducedHash b, \<lparr>batch = b, timestamp = ts\<rparr>)]
      \<and> batches_cache c' = batches_cache c"
proof -
  from probe_returns [OF assms(2)] obtain ts where
    "probe_timestamp (mst_expirations (mst_state c)) (oldestTimestamp b) = Some ts" by blast
  with assms(1) show ?thesis
    by (simp add: insertMSTCache_def Let_def lock_op_def notify_def)
qed

lemma insertMSTCache_existing:
  assumes "map_of (mst_pending (mst_state c)) (reducedHash b) = Some info"
    and "\<not> hasAll (fst (mergeSignaturesInBatch (batch info) b []))"
  shows "\<exists>c'. insertMSTCache hasAll c b = Some c'
      \<and> resident c' (reducedHash b) = Some (fst (mergeSignaturesInBatch (batch info) b []))"
proof -
  obtain target ins diff where
    m: "mergeSignaturesInBatch (batch info) b [] = (target, ins, diff)"
    by (cases "mergeSignaturesInBatch (batch info) b []")
  with assms(2) have "\<not> hasAll target" by simp
  with assms(1) m map_of_set_resident [OF assms(1), of target] show ?thesis
    by (auto simp: insertMSTCache_def Let_def lock_op_def notify_def resident_def)
qed

lemma lock_op_frame [simp]:
  "mst_state (lock_op l c) = mst_state c"
  "batches_cache (lock_op l c) = batches_cache c"
  "used_batches_cache (lock_op l c) = used_batches_cache c"
  "notified (lock_op l c) = notified c"
  "resident (lock_op l c) rh = resident c rh"
  by (simp_all add: lock_op_def resident_def split: option.split)

lemma BatchesCache_insert_partial:
  "\<not> hasAll b \<Longrightarrow>
   BatchesCache_insert hasAll c b
     = map_option (\<lambda>c'. (tx_count (batches_cache c'), lock_op (Release batches_cache_cs) c'))
         (insertMSTCache hasAll (lock_op (Acquire batches_cache_cs) c) b)"
  by (simp add: BatchesCache_insert_def Let_def getTxsCount_def split: option.split)

lemma sigs_union_commute: "sigs_union p2 p1 = sigs_union p1 p2"
proof -
  have "map (\<lambda>s. fst s \<union> snd s) (zip xs ys) = map (\<lambda>s. fst s \<union> snd s) (zip ys xs)"
    for xs ys :: "Signature set list"
    by (induction xs ys rule: list_induct2') (simp_all add: Un_commute)
  then show ?thesis by (simp add: sigs_union_def)
qed

text \<open>
  Two partial batches of the same reduced hash and the same number of transactions,
  inserted one after the other into a cache that has no pending batch of that reduced hash
  and has a free timestamp. When the merged batch is not fully signed, both inserts return
  and the pending batch carries, transaction by transaction, the union of the signature
  sets of the two batches.
\<close>

lemma insert_two_partials:
  assumes np1: "\<not> hasAll p1" and np2: "\<not> hasAll p2"
    and rh: "reducedHash p1 = reducedHash p2"
    and len: "length (transactions p1) = length (transactions p2)"
    and fresh_p: "map_of (mst_pending (mst_state c)) (reducedHash p1) = None"
    and free: "t \<notin> fst ` set (mst_expirations (mst_state c))"
    and nm: "\<not> hasAll (fst (mergeSignaturesInBatch p1 p2 []))"
  shows "\<exists>n1 c1 n2 c2 r.
      BatchesCache_insert hasAll c p1 = Some (n1, c1)
    \<and> BatchesCache_insert hasAll c1 p2 = Some (n2, c2)
    \<and> resident c2 (reducedHash p1) = Some r
    \<and> sigs r = sigs_union p1 p2"
proof -
  let ?c0 = "lock_op (Acquire batches_cache_cs) c"
  from insertMSTCache_new [of ?c0 p1 t hasAll] fresh_p free obtain ts c1' where
    i1: "insertMSTCache hasAll ?c0 p1 = Some c1'"
    and p1: "mst_pending (mst_state c1')
          = mst_pending (mst_state c) @ [(reducedHash p1, \<lparr>batch = p1, timestamp = ts\<rparr>)]"
    by auto
  let ?c1 = "lock_op (Release batches_cache_cs) c1'"
  have 1: "BatchesCache_insert hasAll c p1 = Some (tx_count (batches_cache c1'), ?c1)"
    using np1 i1 by (simp add: BatchesCache_insert_partial)
  let ?c10 = "lock_op (Acquire batches_cache_cs) ?c1"
  have "map_of (mst_pending (mst_state c1')) (reducedHash p1)
             = Some \<lparr>batch = p1, timestamp = ts\<rparr>"
    unfolding p1 by (rule map_of_snoc [OF fresh_p])
  then have e: "map_of (mst_pending (mst_state ?c10)) (reducedHash p2)
             = Some \<lparr>batch = p1, timestamp = ts\<rparr>"
    using rh by simp
  from insertMSTCache_existing [OF e, of hasAll] nm obtain c2' where
    i2: "insertMSTCache hasAll ?c10 p2 = Some c2'"
    and r2: "resident c2' (reducedHash p2) = Some (fst (mergeSignaturesInBatch p1 p2 []))"
    by auto
  have 2: "BatchesCache_insert hasAll ?c1 p2
      = Some (tx_count (batches_cache c2'), lock_op (Release batches_cache_cs) c2')"
    using np2 i2 by (simp add: BatchesCache_insert_partial)
  from 1 2 r2 rh mergeSignaturesInBatch_sigs(1) [OF len, of "[]"] show ?thesis by simp
qed

text \<open>
  C6. The claim wants a resident batch with the union of the signatures after two partial
  batches of one reduced hash were inserted in either order. When the second batch brings
  a new signature and the merged batch is fully signed, the first insert returns and the
  second does not: \<^verbatim>\<open>BatchesCache::insert\<close> holds \<^verbatim>\<open>batches_cache_cs_\<close> from its first line, and
  the promotion in \<^verbatim>\<open>insertMSTCache\<close> locks the same mutex again.
\<close>

theorem completing_insert_does_not_return:
  assumes "\<not> hasAllSignatures p1" and "\<not> hasAllSignatures p2"
    and "reducedHash p1 = reducedHash p2"
    and "map_of (mst_pending (mst_state c)) (reducedHash p1) = None"
    and "t \<notin> fst ` set (mst_expirations (mst_state c))"
    and "mergeSignaturesInBatch p1 p2 [] = (target, True, diff)"
    and "hasAllSignatures target"
  shows "\<exists>n1 c1. BatchesCache_insert hasAllSignatures c p1 = Some (n1, c1)
               \<and> BatchesCache_insert hasAllSignatures c1 p2 = None"
proof -
  let ?c0 = "lock_op (Acquire batches_cache_cs) c"
  from insertMSTCache_new [of ?c0 p1 t hasAllSignatures] assms(4,5) obtain ts c1' where
    i1: "insertMSTCache hasAllSignatures ?c0 p1 = Some c1'"
    and p1: "mst_pending (mst_state c1')
          = mst_pending (mst_state c) @ [(reducedHash p1, \<lparr>batch = p1, timestamp = ts\<rparr>)]"
    by auto
  let ?c1 = "lock_op (Release batches_cache_cs) c1'"
  have 1: "BatchesCache_insert hasAllSignatures c p1 = Some (tx_count (batches_cache c1'), ?c1)"
    using assms(1) i1 by (simp add: BatchesCache_insert_partial)
  have "map_of (mst_pending (mst_state c1')) (reducedHash p1)
             = Some \<lparr>batch = p1, timestamp = ts\<rparr>"
    unfolding p1 by (rule map_of_snoc [OF assms(4)])
  then have e: "map_of (mst_pending (mst_state ?c1)) (reducedHash p2)
             = Some \<lparr>batch = p1, timestamp = ts\<rparr>"
    using assms(3) by simp
  have "BatchesCache_insert hasAllSignatures ?c1 p2 = None"
    using insert_promotion_does_not_return
      [of hasAllSignatures p2 ?c1 "\<lparr>batch = p1, timestamp = ts\<rparr>" target diff]
      assms(2,6,7) e
    by simp
  with 1 show ?thesis by blast
qed

theorem completing_insert_does_not_return_witness:
  "\<not> two_signatures partial_1 \<and> \<not> two_signatures partial_2
   \<and> reducedHash partial_1 = reducedHash partial_2
   \<and> length (transactions partial_1) = length (transactions partial_2)
   \<and> map_of (mst_pending (mst_state BatchesCache_init)) (reducedHash partial_1) = None
   \<and> 0 \<notin> fst ` set (mst_expirations (mst_state BatchesCache_init))
   \<and> fst (mergeSignaturesInBatch partial_1 partial_2 []) = complete_12
   \<and> fst (snd (mergeSignaturesInBatch partial_1 partial_2 [])) = True
   \<and> two_signatures complete_12
   \<and> two_signatures (fst (mergeSignaturesInBatch partial_2 partial_1 []))
   \<and> fst (snd (mergeSignaturesInBatch partial_2 partial_1 [])) = True
   \<and> BatchesCache_insert two_signatures BatchesCache_init partial_1 = Some (0, pending_one)
   \<and> BatchesCache_insert two_signatures pending_one partial_2 = None
   \<and> (\<exists>n1 c1. BatchesCache_insert two_signatures BatchesCache_init partial_2 = Some (n1, c1)
              \<and> BatchesCache_insert two_signatures c1 partial_1 = None)"
proof -
  have h: "\<not> two_signatures partial_1" "\<not> two_signatures partial_2"
    "reducedHash partial_1 = reducedHash partial_2"
    "length (transactions partial_1) = length (transactions partial_2)"
    "map_of (mst_pending (mst_state BatchesCache_init)) (reducedHash partial_1) = None"
    "0 \<notin> fst ` set (mst_expirations (mst_state BatchesCache_init))"
    by (simp_all add: example_defs BatchesCache_init_def MSTState_init_def)
  have m: "fst (mergeSignaturesInBatch partial_1 partial_2 []) = complete_12"
    "fst (snd (mergeSignaturesInBatch partial_1 partial_2 [])) = True"
    "two_signatures complete_12"
    "two_signatures (fst (mergeSignaturesInBatch partial_2 partial_1 []))"
    "fst (snd (mergeSignaturesInBatch partial_2 partial_1 [])) = True"
    by code_simp+
  obtain g1 d1 where m1: "mergeSignaturesInBatch partial_1 partial_2 [] = (g1, True, d1)"
    using m(2) by (cases "mergeSignaturesInBatch partial_1 partial_2 []") auto
  obtain g2 d2 where m2: "mergeSignaturesInBatch partial_2 partial_1 [] = (g2, True, d2)"
    using m(5) by (cases "mergeSignaturesInBatch partial_2 partial_1 []") auto
  have t1: "two_signatures g1" using m(1,3) m1 by simp
  have t2: "two_signatures g2" using m(4) m2 by simp
  have f2: "map_of (mst_pending (mst_state BatchesCache_init)) (reducedHash partial_2) = None"
    using h(3,5) by simp
  from completing_insert_does_not_return
    [of two_signatures partial_1 partial_2 BatchesCache_init 0 g1 d1, OF h(1,2,3,5,6) m1 t1]
    pending_one_reached
  have a: "BatchesCache_insert two_signatures BatchesCache_init partial_1 = Some (0, pending_one)"
    "BatchesCache_insert two_signatures pending_one partial_2 = None"
    by auto
  from completing_insert_does_not_return
    [of two_signatures partial_2 partial_1 BatchesCache_init 0 g2 d2, OF h(2,1) h(3) [symmetric] f2 h(6) m2 t2]
  have b: "\<exists>n1 c1. BatchesCache_insert two_signatures BatchesCache_init partial_2 = Some (n1, c1)
              \<and> BatchesCache_insert two_signatures c1 partial_1 = None" .
  show ?thesis by (intro conjI h m a b)
qed

end
